theory Spec2Isabelle
  imports Main "HOL-Library.Word"
begin

section \<open>The upload handler of remix-node: data model\<close>

text \<open>
  This theory embeds \<^verbatim>\<open>packages/remix-node/upload/fileUploadHandler.ts\<close>.
  Everything the code reaches outside its own memory is a field of the record \<open>world\<close>:
  the filesystem, the clock, the random source and a log of the filesystem calls made.

  The handler is asynchronous JavaScript. What it awaits (\<^verbatim>\<open>stat\<close>, \<^verbatim>\<open>mkdir\<close>, each chunk
  of the input, \<^verbatim>\<open>rm\<close>) has completed before the next statement runs. What it does not
  await is the write stream: \<^verbatim>\<open>createWriteStream\<close>, \<^verbatim>\<open>write\<close> and \<^verbatim>\<open>close\<close> return at once,
  and the stream opens the file, writes the chunks and closes the descriptor later, when
  the event loop gives it a turn. The world therefore holds the stream operations that are
  still pending, in the order they were asked for, and a schedule: for each point at which
  the code yields to the event loop, the number of pending operations that complete there.
  JavaScript numbers are modelled as \<open>int\<close> (sizes and offsets are integral and far
  below \<open>2 ^ 53\<close>), bytes as \<open>8 word\<close>, and a \<^verbatim>\<open>Uint8Array\<close> chunk as a list of bytes.
\<close>

type_synonym byte = "8 word"
type_synonym chunk = "byte list"
type_synonym path = string

text \<open>
  The errors a call can end with. \<open>MeterError\<close> is the class imported from
  \<^verbatim>\<open>@remix-run/server-runtime\<close>, built as \<^verbatim>\<open>new MeterError(name, maxFileSize)\<close>.
  \<open>FileReadError\<close> is the failure of \<^verbatim>\<open>createReadStream\<close> on a missing file.
  \<open>StreamEnded\<close> is what a Node stream that has already ended gives when data is piped
  into it again: it delivers no further data and no further \<^verbatim>\<open>end\<close> event, so the
  read does not complete with a buffer. \<open>NeverSettles\<close> is the read whose promise is
  neither resolved nor rejected because the error was raised on a stream nobody listens
  to. \<open>OpenError\<close> is a write stream failing to open its file.
\<close>

datatype error =
    MeterError string int
  | FileReadError path
  | StreamEnded
  | NeverSettles
  | OpenError path

text \<open>The filesystem calls of the module, in the order they are made.\<close>

datatype event =
    Stat path
  | Mkdir path
  | OpenWrite path
  | Write path chunk
  | CloseWrite path
  | Rm path
  | OpenRead path

text \<open>What a write stream has been asked to do and has not done yet.\<close>

datatype ioAction =
    StreamOpen path
  | StreamWrite path chunk
  | StreamClose path

text \<open>
  \<open>uncaught\<close> collects the errors raised on a stream that has no listener for them;
  \<open>awaits\<close> counts the yields so far.
\<close>

record world =
  files :: "path \<rightharpoonup> byte list"
  trace :: "event list"
  pending :: "ioAction list"
  schedule :: "nat \<Rightarrow> nat"
  awaits :: nat
  uncaught :: "error list"
  clock :: "nat \<Rightarrow> int"
  clockReads :: nat
  random :: "nat \<Rightarrow> 32 word"
  randomReads :: nat
  cwd :: path
  tmpdir :: path

definition emit :: "event \<Rightarrow> world \<Rightarrow> world" where
  "emit e w = w\<lparr>trace := trace w @ [e]\<rparr>"

subsection \<open>Numbers printed by template literals\<close>

text \<open>
  \<^verbatim>\<open>`${new Date().getTime()}`\<close> and \<^verbatim>\<open>"upload_" + n\<close> print an integral number in
  decimal, with a leading minus sign when it is negative.
\<close>

definition digit :: "nat \<Rightarrow> char" where
  "digit d = char_of (48 + d)"

function show_nat :: "nat \<Rightarrow> string" where
  "show_nat n = (if n < 10 then [digit n] else show_nat (n div 10) @ [digit (n mod 10)])"
  by pat_completeness auto
termination
  by (relation "measure id") auto

definition show_int :: "int \<Rightarrow> string" where
  "show_int i = (if i < 0 then CHR ''-'' # show_nat (nat (- i)) else show_nat (nat i))"

subsection \<open>The functions of Node's \<^verbatim>\<open>path\<close> module (POSIX)\<close>

text \<open>
  \<^verbatim>\<open>extname\<close>, \<^verbatim>\<open>basename\<close>, \<^verbatim>\<open>dirname\<close> and \<^verbatim>\<open>resolve\<close> belong to Node, not to
  this repository. They are modelled after their POSIX implementation: the last
  component of a path is what follows the last slash once trailing slashes are dropped.
\<close>

definition stripSlashes :: "path \<Rightarrow> path" where
  "stripSlashes p = rev (dropWhile (\<lambda>c. c = CHR ''/'') (rev p))"

definition basename :: "path \<Rightarrow> string" where
  "basename p = rev (takeWhile (\<lambda>c. c \<noteq> CHR ''/'') (rev (stripSlashes p)))"

definition extname :: "path \<Rightarrow> string" where
  "extname p =
     (let b = basename p;
          afterDot = takeWhile (\<lambda>c. c \<noteq> CHR ''.'') (rev b);
          startDot = length b - length afterDot - 1
      in if CHR ''.'' \<notin> set b \<or> startDot = 0 \<or> b = ''..'' then []
         else drop startDot b)"

definition dirname :: "path \<Rightarrow> path" where
  "dirname p =
     (if p = [] then ''.''
      else
        let hasRoot = (hd p = CHR ''/'');
            body = rev (dropWhile (\<lambda>c. c = CHR ''/'') (rev (tl p)))
        in if CHR ''/'' \<notin> set body then (if hasRoot then ''/'' else ''.'')
           else
             let end' = length body - length (takeWhile (\<lambda>c. c \<noteq> CHR ''/'') (rev body))
             in if hasRoot \<and> end' = 1 then ''//'' else take end' p)"

fun segments :: "path \<Rightarrow> string list" where
  "segments [] = [[]]"
| "segments (c # cs) =
     (if c = CHR ''/'' then [] # segments cs
      else (case segments cs of [] \<Rightarrow> [[c]] | s # ss \<Rightarrow> (c # s) # ss))"

definition normalizeStep :: "bool \<Rightarrow> string list \<Rightarrow> string \<Rightarrow> string list" where
  "normalizeStep allowAboveRoot stack seg =
     (if seg = [] \<or> seg = ''.'' then stack
      else if seg = ''..'' then
        (case stack of
           [] \<Rightarrow> if allowAboveRoot then [''..''] else []
         | s # ss \<Rightarrow> if s = ''..'' then (if allowAboveRoot then ''..'' # stack else stack) else ss)
      else seg # stack)"

fun joinSegments :: "string list \<Rightarrow> path" where
  "joinSegments [] = []"
| "joinSegments [s] = s"
| "joinSegments (s # ss) = s @ ''/'' @ joinSegments ss"

definition normalizeString :: "path \<Rightarrow> bool \<Rightarrow> path" where
  "normalizeString p allowAboveRoot =
     joinSegments (rev (foldl (normalizeStep allowAboveRoot) [] (segments p)))"

text \<open>
  \<^verbatim>\<open>resolve\<close> walks its arguments from the right, then the working directory, until
  the path built so far is absolute; empty arguments are skipped.
\<close>

fun resolveFrom :: "path list \<Rightarrow> path \<Rightarrow> path \<times> bool" where
  "resolveFrom [] resolvedPath = (resolvedPath, False)"
| "resolveFrom (p # ps) resolvedPath =
     (if p = [] then resolveFrom ps resolvedPath
      else if hd p = CHR ''/'' then (p @ ''/'' @ resolvedPath, True)
      else resolveFrom ps (p @ ''/'' @ resolvedPath))"

definition resolvePath :: "path list \<Rightarrow> world \<Rightarrow> path" where
  "resolvePath args w =
     (case resolveFrom (rev args @ [cwd w]) [] of
        (resolvedPath, resolvedAbsolute) \<Rightarrow>
          let n = normalizeString resolvedPath (\<not> resolvedAbsolute)
          in if resolvedAbsolute then CHR ''/'' # n
             else if n \<noteq> [] then n else ''.'')"

section \<open>Filesystem, event loop, clock and random source\<close>

text \<open>
  The filesystem is a finite map from absolute paths to the bytes of regular files.
  Directories are not represented (\<^verbatim>\<open>mkdir\<close> leaves its trace only); a file cannot be
  opened for writing when one of the directories on its path is a regular file.
\<close>

definition ancestors :: "path \<Rightarrow> path list" where
  "ancestors p = map (\<lambda>i. take i p) (filter (\<lambda>i. p ! i = CHR ''/'') [1..<length p])"

definition openFails :: "path \<Rightarrow> world \<Rightarrow> bool" where
  "openFails p w = list_ex (\<lambda>q. files w q \<noteq> None) (ancestors p)"

text \<open>
  A pending stream operation, carried out. Opening with flag \<^verbatim>\<open>w\<close> creates the file, or
  truncates it; when it fails the error has no listener (the handler registers none). A
  write reaches the path only while the file is there: after the open has failed, or
  after the file has been unlinked, the bytes do not appear under the path.
\<close>

definition perform :: "ioAction \<Rightarrow> world \<Rightarrow> world" where
  "perform a w =
     (case a of
        StreamOpen p \<Rightarrow>
          if openFails p w then w\<lparr>uncaught := uncaught w @ [OpenError p]\<rparr>
          else w\<lparr>files := (files w)(p \<mapsto> [])\<rparr>
      | StreamWrite p c \<Rightarrow>
          (case files w p of
             None \<Rightarrow> w
           | Some old \<Rightarrow> w\<lparr>files := (files w)(p \<mapsto> old @ c)\<rparr>)
      | StreamClose p \<Rightarrow> w)"

fun performAll :: "ioAction list \<Rightarrow> world \<Rightarrow> world" where
  "performAll [] w = w"
| "performAll (a # as) w = performAll as (perform a w)"

text \<open>
  \<open>yield\<close> is a point where the code waits for the event loop: as many pending
  operations as the schedule says complete, oldest first. \<open>settle\<close> lets all of them
  complete: it gives the world as it is once the streams have nothing left to do.
\<close>

definition yield :: "world \<Rightarrow> world" where
  "yield w =
     (performAll (take (schedule w (awaits w)) (pending w)) w)
       \<lparr>pending := drop (schedule w (awaits w)) (pending w), awaits := Suc (awaits w)\<rparr>"

definition settle :: "world \<Rightarrow> world" where
  "settle w = (performAll (pending w) w)\<lparr>pending := []\<rparr>"

text \<open>
  The calls of the module. Each logs itself. The awaited ones yield first and then take
  effect; the calls on the write stream only queue what the stream is to do.
\<close>

definition stat :: "path \<Rightarrow> world \<Rightarrow> bool \<times> world" where
  \<comment> \<open>\<^verbatim>\<open>await stat(p).then(() => true).catch(() => false)\<close>\<close>
  "stat p w = (files (yield w) p \<noteq> None, emit (Stat p) (yield w))"

definition mkdir :: "path \<Rightarrow> world \<Rightarrow> world" where
  \<comment> \<open>\<^verbatim>\<open>await mkdir(p, { recursive: true }).catch(() => {})\<close>\<close>
  "mkdir p w = emit (Mkdir p) (yield w)"

definition createWriteStream :: "path \<Rightarrow> world \<Rightarrow> world" where
  \<comment> \<open>not awaited: the file is opened when the stream gets its turn\<close>
  "createWriteStream p w = emit (OpenWrite p) (w\<lparr>pending := pending w @ [StreamOpen p]\<rparr>)"

definition writeChunk :: "path \<Rightarrow> chunk \<Rightarrow> world \<Rightarrow> world" where
  \<comment> \<open>\<^verbatim>\<open>writeFileStream.write(chunk)\<close>: the chunk is queued\<close>
  "writeChunk p c w = emit (Write p c) (w\<lparr>pending := pending w @ [StreamWrite p c]\<rparr>)"

definition closeWriteStream :: "path \<Rightarrow> world \<Rightarrow> world" where
  \<comment> \<open>\<^verbatim>\<open>writeFileStream.close()\<close>: the stream ends once it has written what is queued\<close>
  "closeWriteStream p w = emit (CloseWrite p) (w\<lparr>pending := pending w @ [StreamClose p]\<rparr>)"

definition rm :: "path \<Rightarrow> world \<Rightarrow> world" where
  \<comment> \<open>\<^verbatim>\<open>await rm(p).catch(() => {})\<close>: removes the file if it is there; a failure is swallowed\<close>
  "rm p w = emit (Rm p) ((yield w)\<lparr>files := (files (yield w))(p := None)\<rparr>)"

definition getTime :: "world \<Rightarrow> int \<times> world" where
  \<comment> \<open>\<^verbatim>\<open>new Date().getTime()\<close>: the next reading of the clock\<close>
  "getTime w = (clock w (clockReads w), w\<lparr>clockReads := Suc (clockReads w)\<rparr>)"

definition randomUInt32 :: "world \<Rightarrow> 32 word \<times> world" where
  \<comment> \<open>\<^verbatim>\<open>randomBytes(4).readUInt32LE(0)\<close>: the next draw of the random source\<close>
  "randomUInt32 w = (random w (randomReads w), w\<lparr>randomReads := Suc (randomReads w)\<rparr>)"

text \<open>
  \<^verbatim>\<open>createReadStream\<close> delivers the file in chunks of at most \<open>highWaterMark\<close> bytes
  (64 KiB, Node's default for file streams), or fails when the file is missing. The file
  is opened after a yield.
\<close>

definition highWaterMark :: nat where
  "highWaterMark = 65536"

function chunksOf :: "nat \<Rightarrow> 'a list \<Rightarrow> 'a list list" where
  "chunksOf n xs = (if n = 0 \<or> xs = [] then [] else take n xs # chunksOf n (drop n xs))"
  by pat_completeness auto
termination
  by (relation "measure (\<lambda>(n, xs). length xs)") auto

declare chunksOf.simps [simp del]

type_synonym readable = "error + chunk list"

definition createReadStream :: "path \<Rightarrow> world \<Rightarrow> readable \<times> world" where
  "createReadStream p w =
     (case files (yield w) p of
        None \<Rightarrow> Inl (FileReadError p)
      | Some content \<Rightarrow> Inr (chunksOf highWaterMark content),
      emit (OpenRead p) (yield w))"

section \<open>\<^verbatim>\<open>uniqueFile\<close>\<close>

text \<open>
  The loop of \<^verbatim>\<open>uniqueFile\<close> probes the candidate and, while it exists, derives the
  next candidate from the clock. Its counter \<^verbatim>\<open>i\<close> is never read and is left out.
  The loop need not end (a clock that stands still on a taken name), so it is a partial
  function: \<open>None\<close> is the run that never returns. \<^verbatim>\<open>filepath.slice(0, -ext.length)\<close>
  keeps the first \<open>length filepath - length ext\<close> characters.
\<close>

definition nextCandidate :: "path \<Rightarrow> string \<Rightarrow> int \<Rightarrow> path" where
  "nextCandidate filepath ext t =
     (if ext \<noteq> [] then take (length filepath - length ext) filepath else filepath)
       @ ''-'' @ show_int t @ ext"

partial_function (option) uniqueFileLoop ::
  "path \<Rightarrow> string \<Rightarrow> path \<Rightarrow> world \<Rightarrow> (path \<times> world) option" where
  "uniqueFileLoop filepath ext uniqueFilepath w =
     (case stat uniqueFilepath w of
        (exists, w1) \<Rightarrow>
          if exists then
            (case getTime w1 of
               (t, w2) \<Rightarrow> uniqueFileLoop filepath ext (nextCandidate filepath ext t) w2)
          else Some (uniqueFilepath, w1))"

declare uniqueFileLoop.simps [code]

definition uniqueFile :: "path \<Rightarrow> world \<Rightarrow> (path \<times> world) option" where
  "uniqueFile filepath w = uniqueFileLoop filepath (extname filepath) filepath w"

text \<open>
  One turn of the loop on a taken name: the \<^verbatim>\<open>stat\<close> call and the reading of the clock.
\<close>

definition probeStep :: "path \<Rightarrow> world \<Rightarrow> world" where
  "probeStep u w = (emit (Stat u) (yield w))\<lparr>clockReads := Suc (clockReads w)\<rparr>"

section \<open>\<^verbatim>\<open>NodeOnDiskFile\<close>\<close>

text \<open>
  Modelled from the spec: \<^verbatim>\<open>streamSlice.slice(start, end)\<close> of the third-party package
  \<^verbatim>\<open>stream-slice\<close>, whose code is not part of the sources. It is a transform stream that
  lets through the bytes at stream offsets \<open>[start, end)\<close> of what is piped into it. Being
  a Node stream, it is an object with a state: it counts the bytes it has seen, and once
  its source has ended it has ended too.
\<close>

record SliceStream =
  sliceStart :: int
  sliceEnd :: int
  sliceOffset :: int
  sliceEnded :: bool

definition streamSlice :: "int \<Rightarrow> int \<Rightarrow> SliceStream" where
  "streamSlice start end' =
     \<lparr>sliceStart = start, sliceEnd = end', sliceOffset = 0, sliceEnded = False\<rparr>"

fun transformChunks :: "int \<Rightarrow> int \<Rightarrow> int \<Rightarrow> chunk list \<Rightarrow> chunk list \<times> int" where
  "transformChunks start end' offset [] = ([], offset)"
| "transformChunks start end' offset (c # cs) =
     (case transformChunks start end' (offset + int (length c)) cs of
        (outs, offset') \<Rightarrow>
          (drop (nat (start - offset)) (take (nat (end' - offset)) c) # outs, offset'))"

text \<open>
  \<^verbatim>\<open>stream.pipe(this.slicer)\<close>. \<^verbatim>\<open>pipe\<close> does not forward errors, and the methods listen
  on the slicer only: when the source fails, the slicer gets neither data nor an end, and
  the read never settles. An ended slicer delivers nothing any more. Otherwise the chunks
  pass through the window and the slicer ends with its source.
\<close>

definition pipe :: "readable \<Rightarrow> SliceStream \<Rightarrow> readable \<times> SliceStream" where
  "pipe src s =
     (case src of
        Inl e \<Rightarrow> (Inl NeverSettles, s)
      | Inr chunks \<Rightarrow>
          if sliceEnded s then (Inl StreamEnded, s)
          else
            (case transformChunks (sliceStart s) (sliceEnd s) (sliceOffset s) chunks of
               (outs, offset') \<Rightarrow> (Inr outs, s\<lparr>sliceOffset := offset', sliceEnded := True\<rparr>)))"

text \<open>
  The class. The slicer is a private field holding a stream object; the methods that
  pipe into it change that object, so each of them returns the instance as it is after
  the call, next to its result and the world. An error of the read stream that is piped
  into a slicer has no listener.
\<close>

record NodeOnDiskFile =
  name' :: string
  lastModified :: int
  webkitRelativePath :: string
  filepath :: path
  size' :: int
  type' :: string
  slicer :: "SliceStream option"

definition newNodeOnDiskFile ::
  "path \<Rightarrow> int \<Rightarrow> string \<Rightarrow> SliceStream option \<Rightarrow> NodeOnDiskFile" where
  "newNodeOnDiskFile fp sz ty sl =
     \<lparr>name' = basename fp, lastModified = 0, webkitRelativePath = [],
      filepath = fp, size' = sz, type' = ty, slicer = sl\<rparr>"

definition slice ::
  "NodeOnDiskFile \<Rightarrow> int option \<Rightarrow> int option \<Rightarrow> string option \<Rightarrow> NodeOnDiskFile" where
  "slice this start end' contentType =
     (let start = (case start of Some s \<Rightarrow> s | None \<Rightarrow> 0);
          end' = (case end' of Some e \<Rightarrow> e | None \<Rightarrow> size' this)
      in newNodeOnDiskFile (filepath this) (end' - start) (type' this)
           (Some (streamSlice start end')))"

definition openPiped :: "NodeOnDiskFile \<Rightarrow> world \<Rightarrow> readable \<times> NodeOnDiskFile \<times> world" where
  \<comment> \<open>the first statements of \<^verbatim>\<open>arrayBuffer\<close>, \<^verbatim>\<open>stream\<close> and \<^verbatim>\<open>text\<close> alike\<close>
  "openPiped this w =
     (case createReadStream (filepath this) w of
        (stream, w') \<Rightarrow>
          (case slicer this of
             None \<Rightarrow> (stream, this, w')
           | Some s \<Rightarrow>
               (case pipe stream s of
                  (stream', s') \<Rightarrow>
                    (stream', this\<lparr>slicer := Some s'\<rparr>,
                     (case stream of
                        Inl err \<Rightarrow> w'\<lparr>uncaught := uncaught w' @ [err]\<rparr>
                      | Inr chunks \<Rightarrow> w')))))"

definition arrayBuffer ::
  "NodeOnDiskFile \<Rightarrow> world \<Rightarrow> (error + byte list) \<times> NodeOnDiskFile \<times> world" where
  "arrayBuffer this w =
     (case openPiped this w of
        (stream, this', w') \<Rightarrow>
          (case stream of
             Inl err \<Rightarrow> (Inl err, this', w')
           | Inr buf \<Rightarrow> (Inr (concat buf), this', w')))"

text \<open>
  Modelled from the spec: \<^verbatim>\<open>readableStreamFromStream\<close> and \<^verbatim>\<open>readableStreamToString\<close> of
  \<^verbatim>\<open>../stream\<close>, which is not part of the sources. The first wraps a Node stream as a web
  stream of the same chunks; the second reads a stream to its end and decodes the bytes
  with the default text encoding, which is the parameter \<open>decode\<close>.
\<close>

definition readableStreamFromStream :: "readable \<Rightarrow> readable" where
  "readableStreamFromStream source = source"

definition readableStreamToString :: "(byte list \<Rightarrow> string) \<Rightarrow> readable \<Rightarrow> error + string" where
  "readableStreamToString decode stream =
     (case stream of Inl err \<Rightarrow> Inl err | Inr chunks \<Rightarrow> Inr (decode (concat chunks)))"

definition stream :: "NodeOnDiskFile \<Rightarrow> world \<Rightarrow> readable \<times> NodeOnDiskFile \<times> world" where
  "stream this w =
     (case openPiped this w of
        (s, this', w') \<Rightarrow> (readableStreamFromStream s, this', w'))"

definition text' ::
  "(byte list \<Rightarrow> string) \<Rightarrow> NodeOnDiskFile \<Rightarrow> world \<Rightarrow> (error + string) \<times> NodeOnDiskFile \<times> world" where
  "text' decode this w =
     (case openPiped this w of
        (s, this', w') \<Rightarrow>
          (readableStreamToString decode (readableStreamFromStream s), this', w'))"

section \<open>\<^verbatim>\<open>createFileUploadHandler\<close>\<close>

text \<open>
  The handler receives one multipart field: the three strings below and \<^verbatim>\<open>data\<close>, the
  chunks of its byte stream, here the finite list of chunks the stream yields before it
  ends. The filter and the resolvers are given the three strings.
\<close>

record FileUploadHandlerPathResolverArgs =
  filename :: string
  contentType :: string
  name :: string

type_synonym FileUploadHandlerFilterArgs = FileUploadHandlerPathResolverArgs

type_synonym FileUploadHandlerPathResolver =
  "FileUploadHandlerPathResolverArgs \<Rightarrow> string option"

text \<open>
  \<^verbatim>\<open>directory\<close> is a string or a resolver; the code tests \<^verbatim>\<open>file\<close> for a string in the
  same way. An option that is left out is \<open>None\<close> and takes its default.
\<close>

datatype pathOption =
    PathString string
  | PathResolver FileUploadHandlerPathResolver

record FileUploadHandlerOptions =
  avoidFileConflicts :: "bool option"
  directory :: "pathOption option"
  file' :: "pathOption option"
  maxFileSize :: "int option"
  filter' :: "(FileUploadHandlerFilterArgs \<Rightarrow> bool) option"

definition defaultFilePathResolver ::
  "FileUploadHandlerPathResolverArgs \<Rightarrow> world \<Rightarrow> string \<times> world" where
  "defaultFilePathResolver args w =
     (let ext = (if filename args \<noteq> [] then extname (filename args) else [])
      in (case randomUInt32 w of
            (r, w') \<Rightarrow> (''upload_'' @ show_nat (unat r) @ ext, w')))"

definition maxFileSizeOf :: "FileUploadHandlerOptions \<Rightarrow> int" where
  "maxFileSizeOf opts = (case maxFileSize opts of None \<Rightarrow> 3000000 | Some m \<Rightarrow> m)"

definition avoidFileConflictsOf :: "FileUploadHandlerOptions \<Rightarrow> bool" where
  "avoidFileConflictsOf opts = (case avoidFileConflicts opts of None \<Rightarrow> True | Some b \<Rightarrow> b)"

definition filterRejects ::
  "FileUploadHandlerOptions \<Rightarrow> FileUploadHandlerFilterArgs \<Rightarrow> bool" where
  \<comment> \<open>\<^verbatim>\<open>filter && !(await filter({ name, filename, contentType }))\<close>\<close>
  "filterRejects opts args = (case filter' opts of None \<Rightarrow> False | Some f \<Rightarrow> \<not> f args)"

definition resolveDir ::
  "FileUploadHandlerOptions \<Rightarrow> FileUploadHandlerPathResolverArgs \<Rightarrow> world \<Rightarrow> string option" where
  "resolveDir opts args w =
     (case directory opts of
        None \<Rightarrow> Some (tmpdir w)
      | Some (PathString s) \<Rightarrow> Some s
      | Some (PathResolver r) \<Rightarrow> r args)"

definition resolveFile ::
  "FileUploadHandlerOptions \<Rightarrow> FileUploadHandlerPathResolverArgs \<Rightarrow> world
     \<Rightarrow> string option \<times> world" where
  "resolveFile opts args w =
     (case file' opts of
        None \<Rightarrow> (case defaultFilePathResolver args w of (s, w') \<Rightarrow> (Some s, w'))
      | Some (PathString s) \<Rightarrow> (Some s, w)
      | Some (PathResolver r) \<Rightarrow> (r args, w))"

text \<open>
  The loop over the chunks. It returns the error thrown, if any, and the variables
  \<^verbatim>\<open>size\<close> and \<^verbatim>\<open>deleteFile\<close> as the loop leaves them. \<^verbatim>\<open>for await\<close> yields before each
  chunk, and once more to learn that the input has ended.
\<close>

fun copyChunks ::
  "path \<Rightarrow> string \<Rightarrow> int \<Rightarrow> chunk list \<Rightarrow> int \<Rightarrow> world \<Rightarrow> error option \<times> int \<times> bool \<times> world" where
  "copyChunks fp field limit [] sz w = (None, sz, False, yield w)"
| "copyChunks fp field limit (c # cs) sz w =
     (if sz + int (length c) > limit
      then (Some (MeterError field limit), sz + int (length c), True, yield w)
      else copyChunks fp field limit cs (sz + int (length c)) (writeChunk fp c (yield w)))"

definition storeUpload ::
  "path \<Rightarrow> FileUploadHandlerPathResolverArgs \<Rightarrow> int \<Rightarrow> chunk list \<Rightarrow> world
     \<Rightarrow> (error + NodeOnDiskFile option) \<times> world" where
  \<comment> \<open>from \<^verbatim>\<open>mkdir\<close> to the \<^verbatim>\<open>return\<close>, the \<^verbatim>\<open>finally\<close> block running on both exits\<close>
  "storeUpload fp args limit data w =
     (case copyChunks fp (name args) limit data 0
             (createWriteStream fp (mkdir (dirname fp) w)) of
        (thrown, sz, deleteFile, w1) \<Rightarrow>
          let w2 = closeWriteStream fp w1;
              w3 = (if deleteFile then rm fp w2 else w2)
          in (case thrown of
                Some err \<Rightarrow> (Inl err, w3)
              | None \<Rightarrow> (Inr (Some (newNodeOnDiskFile fp sz (contentType args) None)), w3)))"

text \<open>
  The first part of the handler, up to \<^verbatim>\<open>resolvePath(filedir, path)\<close>: the path to write
  to, or \<open>None\<close> where the handler returns \<^verbatim>\<open>undefined\<close>. A string is falsy when it is
  empty.
\<close>

definition resolveTarget ::
  "FileUploadHandlerOptions \<Rightarrow> FileUploadHandlerPathResolverArgs \<Rightarrow> world
     \<Rightarrow> path option \<times> world" where
  "resolveTarget opts args w =
     (if filterRejects opts args then (None, w)
      else
        (case resolveDir opts args w of
           None \<Rightarrow> (None, w)
         | Some dir \<Rightarrow>
             if dir = [] then (None, w)
             else
               let filedir = resolvePath [dir] w
               in (case resolveFile opts args w of
                     (None, w1) \<Rightarrow> (None, w1)
                   | (Some path, w1) \<Rightarrow>
                       if path = [] then (None, w1)
                       else (Some (resolvePath [filedir, path] w1), w1))))"

text \<open>
  The handler returns \<open>None\<close> when it never returns, \<open>Some (Inl err, w)\<close> when it throws,
  \<open>Some (Inr None, w)\<close> when it returns \<^verbatim>\<open>undefined\<close> and \<open>Some (Inr (Some f), w)\<close> when
  it returns a file.
\<close>

definition createFileUploadHandler ::
  "FileUploadHandlerOptions \<Rightarrow> FileUploadHandlerPathResolverArgs \<Rightarrow> chunk list \<Rightarrow> world
     \<Rightarrow> ((error + NodeOnDiskFile option) \<times> world) option" where
  "createFileUploadHandler opts args data w =
     (case resolveTarget opts args w of
        (None, w1) \<Rightarrow> Some (Inr None, w1)
      | (Some fp, w1) \<Rightarrow>
          (case (if avoidFileConflictsOf opts then uniqueFile fp w1 else Some (fp, w1)) of
             None \<Rightarrow> None
           | Some (fp', w2) \<Rightarrow> Some (storeUpload fp' args (maxFileSizeOf opts) data w2)))"

section \<open>What the properties are stated with\<close>

text \<open>
  The events a call has added to the log, and what they say about the write stream:
  the paths opened for writing, the paths closed, the chunks written and the paths
  removed, each in order.
\<close>

definition newEvents :: "world \<Rightarrow> world \<Rightarrow> event list" where
  "newEvents w w' = drop (length (trace w)) (trace w')"

definition writeOpens :: "event list \<Rightarrow> path list" where
  "writeOpens evs = concat (map (\<lambda>e. case e of OpenWrite p \<Rightarrow> [p] | _ \<Rightarrow> []) evs)"

definition writeCloses :: "event list \<Rightarrow> path list" where
  "writeCloses evs = concat (map (\<lambda>e. case e of CloseWrite p \<Rightarrow> [p] | _ \<Rightarrow> []) evs)"

definition chunksWritten :: "event list \<Rightarrow> chunk list" where
  "chunksWritten evs = concat (map (\<lambda>e. case e of Write p c \<Rightarrow> [c] | _ \<Rightarrow> []) evs)"

definition removals :: "event list \<Rightarrow> path list" where
  "removals evs = concat (map (\<lambda>e. case e of Rm p \<Rightarrow> [p] | _ \<Rightarrow> []) evs)"

definition readOpens :: "event list \<Rightarrow> path list" where
  "readOpens evs = concat (map (\<lambda>e. case e of OpenRead p \<Rightarrow> [p] | _ \<Rightarrow> []) evs)"

text \<open>A field is skipped when the handler returns \<^verbatim>\<open>undefined\<close> for it.\<close>

definition skipped ::
  "FileUploadHandlerOptions \<Rightarrow> FileUploadHandlerPathResolverArgs \<Rightarrow> world \<Rightarrow> bool" where
  "skipped opts args w \<longleftrightarrow> fst (resolveTarget opts args w) = None"

text \<open>
  The probe loop is left only through a name that is not taken. That it is left at all
  rests on the world: the filesystem holds finitely many files, and the clock does not
  stay below any bound for ever. \<open>probeCanEnd\<close> asks this where the loop is run.
  \<open>reach\<close> is every path that exists or that a pending stream operation may still create.
\<close>

definition clockUnbounded :: "world \<Rightarrow> bool" where
  "clockUnbounded w \<longleftrightarrow> (\<forall>n t. \<exists>m. n \<le> m \<and> t < clock w m)"

definition probeCanEnd :: "FileUploadHandlerOptions \<Rightarrow> world \<Rightarrow> bool" where
  "probeCanEnd opts w \<longleftrightarrow>
     (avoidFileConflictsOf opts \<longrightarrow> finite (dom (files w)) \<and> clockUnbounded w)"

definition opensOf :: "ioAction list \<Rightarrow> path list" where
  "opensOf as = concat (map (\<lambda>a. case a of StreamOpen p \<Rightarrow> [p] | _ \<Rightarrow> []) as)"

definition reach :: "world \<Rightarrow> path set" where
  "reach w = dom (files w) \<union> set (opensOf (pending w))"

definition actionPath :: "ioAction \<Rightarrow> path" where
  "actionPath a = (case a of StreamOpen p \<Rightarrow> p | StreamWrite p c \<Rightarrow> p | StreamClose p \<Rightarrow> p)"

definition pendingOn :: "world \<Rightarrow> path set" where
  \<comment> \<open>the paths that the pending stream operations act on\<close>
  "pendingOn w = set (map actionPath (pending w))"

definition sameEnv :: "world \<Rightarrow> world \<Rightarrow> bool" where
  "sameEnv w w' \<longleftrightarrow>
     clock w' = clock w \<and> random w' = random w \<and> cwd w' = cwd w \<and> tmpdir w' = tmpdir w
     \<and> schedule w' = schedule w"

definition probed :: "path \<Rightarrow> string \<Rightarrow> path \<Rightarrow> world \<Rightarrow> path \<Rightarrow> world \<Rightarrow> bool" where
  "probed fp ext u w u' w' \<longleftrightarrow>
     files w' u' = None
     \<and> (u' = u \<or> (\<exists>j. u' = nextCandidate fp ext (clock w j)))
     \<and> sameEnv w w' \<and> reach w' \<subseteq> reach w
     \<and> (pending w = [] \<longrightarrow> pending w' = [] \<and> files w' = files w)
     \<and> (\<exists>ps. trace w' = trace w @ map Stat ps)"

definition readNat :: "string \<Rightarrow> nat" where
  "readNat s = foldl (\<lambda>a c. 10 * a + (of_char c - 48)) 0 s"

subsection \<open>A concrete field, configuration and world\<close>

text \<open>
  The field of the spec's scenario: \<^verbatim>\<open>avatar\<close>, \<^verbatim>\<open>pic.png\<close>, twelve bytes in three
  chunks, with a limit of ten bytes, written to \<^verbatim>\<open>/tmp/a.png\<close>, which exists already.
  Nothing is pending, and the schedule is the one in which no stream operation completes
  at a yield: what the write stream asks of the filesystem is served after what the
  handler awaits.
  \<open>roomyOptions\<close> raises the limit to a hundred bytes. In \<open>sameMsWorld\<close> the clock gives each
  of its readings twice, as two uploads within one millisecond see it.
\<close>

definition exampleWorld :: world where
  "exampleWorld =
     \<lparr>files = [''/tmp/a.png'' \<mapsto> [1, 2, 3]], trace = [], pending = [],
      schedule = (\<lambda>n. 0), awaits = 0, uncaught = [], clock = (\<lambda>n. int n),
      clockReads = 0, random = (\<lambda>n. 7), randomReads = 0, cwd = ''/home/u'', tmpdir = ''/tmp''\<rparr>"

definition exampleArgs :: FileUploadHandlerPathResolverArgs where
  "exampleArgs = \<lparr>filename = ''pic.png'', contentType = ''image/png'', name = ''avatar''\<rparr>"

definition exampleData :: "chunk list" where
  "exampleData = [[1, 2, 3, 4], [5, 6, 7, 8], [9, 10, 11, 12]]"

definition exampleOptions :: FileUploadHandlerOptions where
  "exampleOptions =
     \<lparr>avoidFileConflicts = None, directory = None, file' = Some (PathString ''a.png''),
      maxFileSize = Some 10, filter' = None\<rparr>"

definition roomyOptions :: FileUploadHandlerOptions where
  "roomyOptions = exampleOptions\<lparr>maxFileSize := Some 100\<rparr>"

definition sameMsWorld :: world where
  "sameMsWorld = exampleWorld\<lparr>clock := (\<lambda>n. int (n div 2))\<rparr>"

subsection \<open>The same upload, repeated\<close>

text \<open>
  \<open>repeatUpload n\<close> hands the same field to the handler \<open>n\<close> times, each call starting in
  the world the call before has left; \<open>storedPaths\<close> lists the backing paths of the files
  the calls returned.
\<close>

fun repeatUpload ::
  "nat \<Rightarrow> FileUploadHandlerOptions \<Rightarrow> FileUploadHandlerPathResolverArgs \<Rightarrow> chunk list \<Rightarrow> world
     \<Rightarrow> ((error + NodeOnDiskFile option) list \<times> world) option" where
  "repeatUpload 0 opts args data w = Some ([], w)"
| "repeatUpload (Suc n) opts args data w =
     (case createFileUploadHandler opts args data w of
        None \<Rightarrow> None
      | Some (r, w1) \<Rightarrow>
          (case repeatUpload n opts args data w1 of
             None \<Rightarrow> None
           | Some (rs, w2) \<Rightarrow> Some (r # rs, w2)))"

definition storedPaths :: "(error + NodeOnDiskFile option) list \<Rightarrow> path list" where
  "storedPaths rs =
     concat (map (\<lambda>r. case r of Inr (Some f) \<Rightarrow> [filepath f] | _ \<Rightarrow> []) rs)"

subsection \<open>A stored file of six bytes\<close>

definition sixWorld :: world where
  "sixWorld = exampleWorld\<lparr>files := [''/tmp/six.bin'' \<mapsto> [1, 2, 3, 4, 5, 6]]\<rparr>"

definition sixFile :: NodeOnDiskFile where
  "sixFile = newNodeOnDiskFile ''/tmp/six.bin'' 6 ''application/octet-stream'' None"

section \<open>Lemmas\<close>

subsection \<open>The event loop\<close>

lemma perform_frame:
  "trace (perform a w) = trace w" "pending (perform a w) = pending w"
  "schedule (perform a w) = schedule w" "awaits (perform a w) = awaits w"
  "clock (perform a w) = clock w" "clockReads (perform a w) = clockReads w"
  "random (perform a w) = random w" "randomReads (perform a w) = randomReads w"
  "cwd (perform a w) = cwd w" "tmpdir (perform a w) = tmpdir w"
  by (simp_all add: perform_def split: ioAction.splits option.splits)

lemma performAll_frame:
  "trace (performAll as w) = trace w" "pending (performAll as w) = pending w"
  "schedule (performAll as w) = schedule w" "awaits (performAll as w) = awaits w"
  "clock (performAll as w) = clock w" "clockReads (performAll as w) = clockReads w"
  "random (performAll as w) = random w" "randomReads (performAll as w) = randomReads w"
  "cwd (performAll as w) = cwd w" "tmpdir (performAll as w) = tmpdir w"
  by (induction as arbitrary: w; simp add: perform_frame)+

lemma yield_frame:
  "trace (yield w) = trace w" "schedule (yield w) = schedule w"
  "awaits (yield w) = Suc (awaits w)"
  "clock (yield w) = clock w" "clockReads (yield w) = clockReads w"
  "random (yield w) = random w" "randomReads (yield w) = randomReads w"
  "cwd (yield w) = cwd w" "tmpdir (yield w) = tmpdir w"
  "pending (yield w) = drop (schedule w (awaits w)) (pending w)"
  by (simp_all add: yield_def performAll_frame)

lemma yield_quiet:
  assumes "pending w = []"
  shows "files (yield w) = files w" "pending (yield w) = []" "uncaught (yield w) = uncaught w"
  using assms by (simp_all add: yield_def)

lemma perform_dom: "dom (files (perform a w)) \<subseteq> dom (files w) \<union> set (opensOf [a])"
  by (auto simp: perform_def opensOf_def split: ioAction.splits option.splits if_splits)

lemma opensOf_Cons: "set (opensOf (a # as)) = set (opensOf [a]) \<union> set (opensOf as)"
  by (simp add: opensOf_def)

lemma performAll_dom: "dom (files (performAll as w)) \<subseteq> dom (files w) \<union> set (opensOf as)"
proof (induction as arbitrary: w)
  case Nil
  show ?case by simp
next
  case (Cons a as)
  have "dom (files (performAll as (perform a w))) \<subseteq> dom (files (perform a w)) \<union> set (opensOf as)"
    by (rule Cons.IH)
  also have "\<dots> \<subseteq> (dom (files w) \<union> set (opensOf [a])) \<union> set (opensOf as)"
    using perform_dom [of a w] by blast
  finally show ?case by (simp add: opensOf_Cons [of a as] Un_assoc)
qed

lemma opensOf_append: "opensOf (xs @ ys) = opensOf xs @ opensOf ys"
  by (simp add: opensOf_def)

lemma opensOf_take_drop: "set (opensOf (take n as)) \<union> set (opensOf (drop n as)) = set (opensOf as)"
proof -
  have "opensOf (take n as @ drop n as) = opensOf (take n as) @ opensOf (drop n as)"
    by (rule opensOf_append)
  then show ?thesis by simp
qed

lemma files_yield: "files (yield w) = files (performAll (take (schedule w (awaits w)) (pending w)) w)"
  by (simp add: yield_def)

lemma reach_yield: "reach (yield w) \<subseteq> reach w"
proof -
  let ?n = "schedule w (awaits w)"
  have "dom (files (yield w)) \<subseteq> dom (files w) \<union> set (opensOf (take ?n (pending w)))"
    unfolding files_yield by (rule performAll_dom)
  moreover have "set (opensOf (pending (yield w))) = set (opensOf (drop ?n (pending w)))"
    by (simp add: yield_frame)
  ultimately show ?thesis
    unfolding reach_def using opensOf_take_drop [of ?n "pending w"] by blast
qed

lemma emit_frame:
  "files (emit e w) = files w" "pending (emit e w) = pending w"
  "schedule (emit e w) = schedule w" "awaits (emit e w) = awaits w"
  "clock (emit e w) = clock w" "clockReads (emit e w) = clockReads w"
  "random (emit e w) = random w" "randomReads (emit e w) = randomReads w"
  "cwd (emit e w) = cwd w" "tmpdir (emit e w) = tmpdir w"
  "uncaught (emit e w) = uncaught w" "trace (emit e w) = trace w @ [e]"
  by (simp_all add: emit_def)

lemma reach_emit: "reach (emit e w) = reach w"
  by (simp add: reach_def emit_frame)

lemma finite_reach: "finite (dom (files w)) \<Longrightarrow> finite (reach w)"
  by (simp add: reach_def)

lemma not_reach: "u \<notin> reach w \<Longrightarrow> files w u = None"
  by (auto simp: reach_def)

subsection \<open>Decimal printing is injective\<close>

lemma of_char_digit: "d < 10 \<Longrightarrow> (of_char (digit d) :: nat) = 48 + d"
  by (simp add: digit_def)

lemma readNat_snoc: "readNat (s @ [c]) = 10 * readNat s + (of_char c - 48)"
  by (simp add: readNat_def)

lemma readNat_show_nat: "readNat (show_nat n) = n"
proof (induction n rule: show_nat.induct)
  case (1 n)
  show ?case
  proof (cases "n < 10")
    case True
    then show ?thesis by (simp add: readNat_def of_char_digit)
  next
    case False
    then have "readNat (show_nat n) = 10 * readNat (show_nat (n div 10)) + (of_char (digit (n mod 10)) - 48)"
      by (subst show_nat.simps) (simp add: readNat_snoc)
    also have "\<dots> = 10 * (n div 10) + n mod 10"
      using False "1.IH" by (simp add: of_char_digit)
    finally show ?thesis by simp
  qed
qed

lemma show_nat_inj: "show_nat m = show_nat n \<Longrightarrow> m = n"
  by (metis readNat_show_nat)

lemma digit_not_minus: "d < 10 \<Longrightarrow> digit d \<noteq> CHR ''-''"
proof
  assume "d < 10" "digit d = CHR ''-''"
  then have "(of_char (digit d) :: nat) = of_char CHR ''-''" by simp
  with \<open>d < 10\<close> show False by (simp add: of_char_digit)
qed

lemma hd_show_nat: "show_nat n \<noteq> [] \<and> hd (show_nat n) \<noteq> CHR ''-''"
proof (induction n rule: show_nat.induct)
  case (1 n)
  show ?case
  proof (cases "n < 10")
    case True
    then show ?thesis by (simp add: digit_not_minus)
  next
    case False
    with "1.IH" show ?thesis by (subst (1 2) show_nat.simps) simp
  qed
qed

lemma show_int_inj: "show_int i = show_int j \<Longrightarrow> i = j"
proof -
  assume eq: "show_int i = show_int j"
  have neg_pos: False if "show_nat a = CHR ''-'' # s" for a s
    using hd_show_nat [of a] that by simp
  show ?thesis
  proof (cases "i < 0"; cases "j < 0")
    assume "i < 0" "j < 0"
    with eq have "nat (- i) = nat (- j)" by (simp add: show_int_def show_nat_inj)
    with \<open>i < 0\<close> \<open>j < 0\<close> show ?thesis by simp
  next
    assume "i < 0" "\<not> j < 0"
    with eq neg_pos show ?thesis by (simp add: show_int_def) metis
  next
    assume "\<not> i < 0" "j < 0"
    with eq neg_pos show ?thesis by (simp add: show_int_def) metis
  next
    assume "\<not> i < 0" "\<not> j < 0"
    with eq have "nat i = nat j" by (simp add: show_int_def show_nat_inj)
    with \<open>\<not> i < 0\<close> \<open>\<not> j < 0\<close> show ?thesis by simp
  qed
qed

lemma nextCandidate_shape:
  "nextCandidate fp ext t = take (length fp - length ext) fp @ ''-'' @ show_int t @ ext"
  by (simp add: nextCandidate_def)

lemma nextCandidate_inj: "inj (nextCandidate fp ext)"
  by (rule injI) (simp add: nextCandidate_def show_int_inj)

subsection \<open>The probe loop returns\<close>

lemma uniqueFileLoop_free:
  "files (yield w) u = None \<Longrightarrow> uniqueFileLoop fp ext u w = Some (u, emit (Stat u) (yield w))"
  by (subst uniqueFileLoop.simps) (simp add: stat_def)

lemma uniqueFileLoop_taken:
  "files (yield w) u \<noteq> None \<Longrightarrow>
   uniqueFileLoop fp ext u w =
     uniqueFileLoop fp ext (nextCandidate fp ext (clock w (clockReads w))) (probeStep u w)"
  by (subst uniqueFileLoop.simps)
     (simp add: stat_def getTime_def probeStep_def emit_frame yield_frame)

lemma probeStep_frame:
  "trace (probeStep u w) = trace w @ [Stat u]" "clock (probeStep u w) = clock w"
  "clockReads (probeStep u w) = Suc (clockReads w)" "random (probeStep u w) = random w"
  "cwd (probeStep u w) = cwd w" "tmpdir (probeStep u w) = tmpdir w"
  "schedule (probeStep u w) = schedule w" "files (probeStep u w) = files (yield w)"
  "pending (probeStep u w) = pending (yield w)"
  by (simp_all add: probeStep_def emit_frame yield_frame)

lemma reach_probeStep: "reach (probeStep u w) \<subseteq> reach w"
proof -
  have "reach (probeStep u w) = reach (yield w)"
    by (simp add: reach_def probeStep_frame)
  then show ?thesis using reach_yield [of w] by simp
qed

lemma probed_free:
  assumes "files (yield w) u = None"
  shows "probed fp ext u w u (emit (Stat u) (yield w))"
  unfolding probed_def
proof (intro conjI)
  show "files (emit (Stat u) (yield w)) u = None" using assms by (simp add: emit_frame)
  show "u = u \<or> (\<exists>j. u = nextCandidate fp ext (clock w j))" by simp
  show "sameEnv w (emit (Stat u) (yield w))" by (simp add: sameEnv_def emit_frame yield_frame)
  show "reach (emit (Stat u) (yield w)) \<subseteq> reach w" using reach_yield by (simp add: reach_emit)
  show "pending w = [] \<longrightarrow>
      pending (emit (Stat u) (yield w)) = [] \<and> files (emit (Stat u) (yield w)) = files w"
    by (simp add: emit_frame yield_quiet)
  have "trace (emit (Stat u) (yield w)) = trace w @ map Stat [u]"
    by (simp add: emit_frame yield_frame)
  then show "\<exists>ps. trace (emit (Stat u) (yield w)) = trace w @ map Stat ps" ..
qed

lemma probed_step:
  assumes "probed fp ext (nextCandidate fp ext (clock w (clockReads w))) (probeStep u w) u' w'"
  shows "probed fp ext u w u' w'"
proof -
  let ?w1 = "probeStep u w"
  from assms have free: "files w' u' = None"
    and shape: "u' = nextCandidate fp ext (clock w (clockReads w))
              \<or> (\<exists>j. u' = nextCandidate fp ext (clock ?w1 j))"
    and env: "sameEnv ?w1 w'"
    and sub: "reach w' \<subseteq> reach ?w1"
    and quiet: "pending ?w1 = [] \<longrightarrow> pending w' = [] \<and> files w' = files ?w1"
    unfolding probed_def by blast+
  from assms obtain ps where tr: "trace w' = trace ?w1 @ map Stat ps"
    unfolding probed_def by blast
  show ?thesis
    unfolding probed_def
  proof (intro conjI)
    show "files w' u' = None" by (rule free)
    show "u' = u \<or> (\<exists>j. u' = nextCandidate fp ext (clock w j))"
      using shape by (auto simp: probeStep_frame)
    show "sameEnv w w'" using env by (simp add: sameEnv_def probeStep_frame)
    show "reach w' \<subseteq> reach w" using sub reach_probeStep [of u w] by blast
    show "pending w = [] \<longrightarrow> pending w' = [] \<and> files w' = files w"
      using quiet by (simp add: probeStep_frame yield_quiet)
    have "trace w' = trace w @ map Stat (u # ps)" using tr by (simp add: probeStep_frame)
    then show "\<exists>ps. trace w' = trace w @ map Stat ps" ..
  qed
qed

lemma uniqueFileLoop_returns:
  "nextCandidate fp ext (clock w (clockReads w + k)) \<notin> reach w \<Longrightarrow>
   \<exists>u' w'. uniqueFileLoop fp ext u w = Some (u', w') \<and> probed fp ext u w u' w'"
proof (induction k arbitrary: u w)
  case 0
  show ?case
  proof (cases "files (yield w) u = None")
    case True
    then show ?thesis using uniqueFileLoop_free probed_free by blast
  next
    case False
    let ?u1 = "nextCandidate fp ext (clock w (clockReads w))"
    let ?w1 = "probeStep u w"
    from 0 have "?u1 \<notin> reach w" by simp
    then have "?u1 \<notin> reach (yield ?w1)"
      using reach_probeStep [of u w] reach_yield [of ?w1] by blast
    then have free: "files (yield ?w1) ?u1 = None" by (rule not_reach)
    then have "uniqueFileLoop fp ext ?u1 ?w1 = Some (?u1, emit (Stat ?u1) (yield ?w1))"
      by (rule uniqueFileLoop_free)
    moreover from free have "probed fp ext ?u1 ?w1 ?u1 (emit (Stat ?u1) (yield ?w1))"
      by (rule probed_free)
    then have "probed fp ext u w ?u1 (emit (Stat ?u1) (yield ?w1))"
      by (rule probed_step)
    ultimately show ?thesis
      using uniqueFileLoop_taken [OF False, of fp ext] by simp
  qed
next
  case (Suc k)
  show ?case
  proof (cases "files (yield w) u = None")
    case True
    then show ?thesis using uniqueFileLoop_free probed_free by blast
  next
    case False
    let ?u1 = "nextCandidate fp ext (clock w (clockReads w))"
    let ?w1 = "probeStep u w"
    from Suc.prems have "nextCandidate fp ext (clock ?w1 (clockReads ?w1 + k)) \<notin> reach w"
      by (simp add: probeStep_frame)
    then have "nextCandidate fp ext (clock ?w1 (clockReads ?w1 + k)) \<notin> reach ?w1"
      using reach_probeStep [of u w] by blast
    from Suc.IH [OF this, of ?u1] obtain u' w' where
      run: "uniqueFileLoop fp ext ?u1 ?w1 = Some (u', w')" and p: "probed fp ext ?u1 ?w1 u' w'"
      by blast
    from p have "probed fp ext u w u' w'" by (rule probed_step)
    with run show ?thesis
      using uniqueFileLoop_taken [OF False, of fp ext] by simp
  qed
qed

lemma free_name_exists:
  assumes "finite (dom (files w))" and "clockUnbounded w"
  shows "\<exists>k. nextCandidate fp ext (clock w (clockReads w + k)) \<notin> reach w"
proof -
  let ?T = "nextCandidate fp ext -` reach w"
  have "finite (reach w)" using assms(1) by (rule finite_reach)
  then have "finite ?T"
    using nextCandidate_inj by (rule finite_vimageI)
  then have "bdd_above ?T" by simp
  then obtain M where M: "\<forall>t\<in>?T. t \<le> M" unfolding bdd_above_def by blast
  from assms(2) obtain m where m: "clockReads w \<le> m" "M < clock w m"
    unfolding clockUnbounded_def by blast
  have "clock w m \<notin> ?T"
  proof
    assume "clock w m \<in> ?T"
    with M have "clock w m \<le> M" by blast
    with m(2) show False by simp
  qed
  then have "nextCandidate fp ext (clock w m) \<notin> reach w" by simp
  with m(1) have "nextCandidate fp ext (clock w (clockReads w + (m - clockReads w))) \<notin> reach w"
    by simp
  then show ?thesis ..
qed

lemma uniqueFile_returns:
  assumes "finite (dom (files w))" and "clockUnbounded w"
  shows "\<exists>u' w'. uniqueFile fp w = Some (u', w') \<and> probed fp (extname fp) fp w u' w'"
  unfolding uniqueFile_def
  using free_name_exists [OF assms] uniqueFileLoop_returns by blast

subsection \<open>The copy loop\<close>

lemma call_trace:
  "trace (mkdir p w) = trace w @ [Mkdir p]"
  "trace (createWriteStream p w) = trace w @ [OpenWrite p]"
  "trace (writeChunk p c w) = trace w @ [Write p c]"
  "trace (closeWriteStream p w) = trace w @ [CloseWrite p]"
  "trace (rm p w) = trace w @ [Rm p]"
  by (simp_all add: mkdir_def createWriteStream_def writeChunk_def closeWriteStream_def rm_def
      emit_def yield_frame)

lemma copyChunks_within:
  "sz + int (length (concat cs)) \<le> limit \<Longrightarrow>
   \<exists>w'. copyChunks fp field limit cs sz w = (None, sz + int (length (concat cs)), False, w')
     \<and> trace w' = trace w @ map (Write fp) cs"
proof (induction cs arbitrary: sz w)
  case Nil
  have "copyChunks fp field limit [] sz w = (None, sz + int (length (concat [])), False, yield w)"
    by simp
  moreover have "trace (yield w) = trace w @ map (Write fp) []" by (simp add: yield_frame)
  ultimately show ?case by blast
next
  case (Cons c cs)
  let ?w1 = "writeChunk fp c (yield w)"
  from Cons.prems have fits: "sz + int (length c) + int (length (concat cs)) \<le> limit" by simp
  from Cons.IH [OF fits, of ?w1] obtain w' where
    run: "copyChunks fp field limit cs (sz + int (length c)) ?w1 =
        (None, sz + int (length c) + int (length (concat cs)), False, w')" and
    tr: "trace w' = trace ?w1 @ map (Write fp) cs"
    by blast
  from Cons.prems have "\<not> limit < sz + int (length c)" by simp
  with run have "copyChunks fp field limit (c # cs) sz w =
      (None, sz + int (length (concat (c # cs))), False, w')"
    by (simp add: add.assoc)
  moreover have "trace w' = trace w @ map (Write fp) (c # cs)"
    using tr by (simp add: call_trace yield_frame)
  ultimately show ?case by blast
qed

lemma copyChunks_exceeds:
  "sz \<le> limit \<Longrightarrow> limit < sz + int (length (concat cs)) \<Longrightarrow>
   \<exists>pre c rest sz' w'. cs = pre @ c # rest
     \<and> sz + int (length (concat pre)) \<le> limit
     \<and> limit < sz + int (length (concat (pre @ [c])))
     \<and> copyChunks fp field limit cs sz w = (Some (MeterError field limit), sz', True, w')
     \<and> trace w' = trace w @ map (Write fp) pre"
proof (induction cs arbitrary: sz w)
  case Nil
  then show ?case by simp
next
  case (Cons c cs)
  show ?case
  proof (cases "limit < sz + int (length c)")
    case True
    with Cons.prems have "c # cs = [] @ c # cs
      \<and> sz + int (length (concat ([] :: chunk list))) \<le> limit
      \<and> limit < sz + int (length (concat ([] @ [c])))
      \<and> copyChunks fp field limit (c # cs) sz w =
         (Some (MeterError field limit), sz + int (length c), True, yield w)
      \<and> trace (yield w) = trace w @ map (Write fp) []"
      by (simp add: yield_frame)
    then show ?thesis by blast
  next
    case False
    let ?w1 = "writeChunk fp c (yield w)"
    from False have le: "sz + int (length c) \<le> limit" by simp
    from Cons.prems have "limit < sz + int (length c) + int (length (concat cs))" by simp
    from Cons.IH [OF le this, of ?w1] obtain pre d rest sz' w' where
      cs: "cs = pre @ d # rest" and
      lo: "sz + int (length c) + int (length (concat pre)) \<le> limit" and
      hi: "limit < sz + int (length c) + int (length (concat (pre @ [d])))" and
      run: "copyChunks fp field limit cs (sz + int (length c)) ?w1 =
         (Some (MeterError field limit), sz', True, w')" and
      tr: "trace w' = trace ?w1 @ map (Write fp) pre"
      by blast
    have "c # cs = (c # pre) @ d # rest
      \<and> sz + int (length (concat (c # pre))) \<le> limit
      \<and> limit < sz + int (length (concat ((c # pre) @ [d])))
      \<and> copyChunks fp field limit (c # cs) sz w = (Some (MeterError field limit), sz', True, w')
      \<and> trace w' = trace w @ map (Write fp) (c # pre)"
      using cs lo hi run tr False by (simp add: add.assoc call_trace yield_frame)
    then show ?thesis by blast
  qed
qed

lemma copyChunks_shape:
  "\<exists>pre thrown sz' del w'. copyChunks fp field limit cs sz w = (thrown, sz', del, w')
     \<and> trace w' = trace w @ map (Write fp) pre"
proof (induction cs arbitrary: sz w)
  case Nil
  have "copyChunks fp field limit [] sz w = (None, sz, False, yield w)
      \<and> trace (yield w) = trace w @ map (Write fp) []"
    by (simp add: yield_frame)
  then show ?case by blast
next
  case (Cons c cs)
  show ?case
  proof (cases "limit < sz + int (length c)")
    case True
    then have "copyChunks fp field limit (c # cs) sz w =
        (Some (MeterError field limit), sz + int (length c), True, yield w)
      \<and> trace (yield w) = trace w @ map (Write fp) []"
      by (simp add: yield_frame)
    then show ?thesis by blast
  next
    case False
    let ?w1 = "writeChunk fp c (yield w)"
    from Cons.IH [of "sz + int (length c)" ?w1] obtain pre thrown sz' del w' where
      run: "copyChunks fp field limit cs (sz + int (length c)) ?w1 = (thrown, sz', del, w')" and
      tr: "trace w' = trace ?w1 @ map (Write fp) pre"
      by blast
    from run False have "copyChunks fp field limit (c # cs) sz w = (thrown, sz', del, w')"
      by simp
    moreover have "trace w' = trace w @ map (Write fp) (c # pre)"
      using tr by (simp add: call_trace yield_frame)
    ultimately show ?thesis by blast
  qed
qed

subsection \<open>Storing an upload\<close>

lemma storeUpload_trace:
  "\<exists>pre del. trace (snd (storeUpload fp args limit data w)) =
     trace w @ [Mkdir (dirname fp), OpenWrite fp] @ map (Write fp) pre @ [CloseWrite fp]
       @ (if del then [Rm fp] else [])"
proof -
  let ?w0 = "createWriteStream fp (mkdir (dirname fp) w)"
  from copyChunks_shape [of fp "name args" limit data 0 ?w0]
  obtain pre thrown sz' del w1 where
    run: "copyChunks fp (name args) limit data 0 ?w0 = (thrown, sz', del, w1)" and
    tr: "trace w1 = trace ?w0 @ map (Write fp) pre"
    by blast
  let ?w2 = "closeWriteStream fp w1"
  have snd_eq: "snd (storeUpload fp args limit data w) = (if del then rm fp ?w2 else ?w2)"
    by (cases thrown) (simp_all add: storeUpload_def run Let_def)
  have tr2: "trace ?w2 = trace w @ [Mkdir (dirname fp), OpenWrite fp] @ map (Write fp) pre
      @ [CloseWrite fp]"
    using tr by (simp add: call_trace)
  have "trace (snd (storeUpload fp args limit data w)) =
     trace w @ [Mkdir (dirname fp), OpenWrite fp] @ map (Write fp) pre @ [CloseWrite fp]
       @ (if del then [Rm fp] else [])"
  proof (cases del)
    case True
    then have "trace (snd (storeUpload fp args limit data w)) = trace (rm fp ?w2)"
      by (simp only: snd_eq if_True)
    also have "\<dots> = trace ?w2 @ [Rm fp]"
      by (rule call_trace)
    also have "\<dots> = (trace w @ [Mkdir (dirname fp), OpenWrite fp] @ map (Write fp) pre
      @ [CloseWrite fp]) @ [Rm fp]"
      by (simp only: tr2)
    finally show ?thesis using True by (simp only: if_True append_assoc)
  next
    case False
    then have "trace (snd (storeUpload fp args limit data w)) = trace ?w2"
      by (simp only: snd_eq if_False)
    also note tr2
    finally show ?thesis using False by (simp only: if_False append_Nil2)
  qed
  then show ?thesis by blast
qed

lemma storeUpload_within:
  assumes "int (length (concat data)) \<le> limit"
  shows "\<exists>w'. storeUpload fp args limit data w =
     (Inr (Some (newNodeOnDiskFile fp (int (length (concat data))) (contentType args) None)), w')
     \<and> trace w' = trace w @ [Mkdir (dirname fp), OpenWrite fp] @ map (Write fp) data
          @ [CloseWrite fp]"
proof -
  let ?w0 = "createWriteStream fp (mkdir (dirname fp) w)"
  from copyChunks_within [of 0 data limit fp "name args" ?w0] assms obtain w1 where
    run: "copyChunks fp (name args) limit data 0 ?w0 =
      (None, int (length (concat data)), False, w1)" and
    tr: "trace w1 = trace ?w0 @ map (Write fp) data"
    by auto
  have "storeUpload fp args limit data w =
     (Inr (Some (newNodeOnDiskFile fp (int (length (concat data))) (contentType args) None)),
      closeWriteStream fp w1)"
    by (simp add: storeUpload_def run)
  moreover have "trace (closeWriteStream fp w1) =
      trace w @ [Mkdir (dirname fp), OpenWrite fp] @ map (Write fp) data @ [CloseWrite fp]"
    using tr by (simp add: call_trace)
  ultimately show ?thesis by blast
qed

lemma storeUpload_exceeds:
  assumes "0 \<le> limit" and "limit < int (length (concat data))"
  shows "\<exists>pre c rest w'. data = pre @ c # rest
     \<and> int (length (concat pre)) \<le> limit
     \<and> limit < int (length (concat (pre @ [c])))
     \<and> storeUpload fp args limit data w = (Inl (MeterError (name args) limit), w')
     \<and> trace w' = trace w @ [Mkdir (dirname fp), OpenWrite fp] @ map (Write fp) pre
          @ [CloseWrite fp, Rm fp]"
proof -
  let ?w0 = "createWriteStream fp (mkdir (dirname fp) w)"
  from copyChunks_exceeds [of 0 limit data fp "name args" ?w0] assms
  obtain pre c rest sz' w1 where
    data: "data = pre @ c # rest" and
    lo: "int (length (concat pre)) \<le> limit" and
    hi: "limit < int (length (concat (pre @ [c])))" and
    run: "copyChunks fp (name args) limit data 0 ?w0 =
         (Some (MeterError (name args) limit), sz', True, w1)" and
    tr: "trace w1 = trace ?w0 @ map (Write fp) pre"
    by auto
  have "storeUpload fp args limit data w =
      (Inl (MeterError (name args) limit), rm fp (closeWriteStream fp w1))"
    by (simp add: storeUpload_def run)
  moreover have "trace (rm fp (closeWriteStream fp w1)) =
      trace w @ [Mkdir (dirname fp), OpenWrite fp] @ map (Write fp) pre @ [CloseWrite fp, Rm fp]"
    using tr by (simp add: call_trace)
  ultimately show ?thesis using data lo hi by blast
qed

lemma randomUInt32_frame:
  "randomUInt32 w = (r, w1) \<Longrightarrow> sameEnv w w1 \<and> files w1 = files w \<and> pending w1 = pending w \<and> trace w1 = trace w"
  by (auto simp: randomUInt32_def sameEnv_def)

lemma resolveFile_frame:
  assumes "resolveFile opts args w = (r, w1)"
  shows "sameEnv w w1 \<and> files w1 = files w \<and> pending w1 = pending w \<and> trace w1 = trace w"
proof (cases "file' opts")
  case None
  obtain x w' where x: "randomUInt32 w = (x, w')" by (cases "randomUInt32 w")
  with None assms have "w1 = w'"
    by (simp add: resolveFile_def defaultFilePathResolver_def Let_def)
  with randomUInt32_frame [OF x] show ?thesis by simp
next
  case (Some po)
  with assms have "w1 = w"
    by (cases po) (simp_all add: resolveFile_def)
  then show ?thesis by (simp add: sameEnv_def)
qed

lemma resolveTarget_frame:
  assumes "resolveTarget opts args w = (r, w1)"
  shows "sameEnv w w1 \<and> files w1 = files w \<and> pending w1 = pending w \<and> trace w1 = trace w"
proof -
  obtain p w' where rf: "resolveFile opts args w = (p, w')" by (cases "resolveFile opts args w")
  from assms have "w1 = w \<or> w1 = w'"
    unfolding resolveTarget_def Let_def rf
    by (simp split: if_splits option.splits)
  with resolveFile_frame [OF rf] show ?thesis by (auto simp: sameEnv_def)
qed

lemma handler_stores:
  assumes target: "resolveTarget opts args w = (Some fp0, w1)"
    and ends: "probeCanEnd opts w"
  shows "\<exists>fp w2 ps. createFileUploadHandler opts args data w =
           Some (storeUpload fp args (maxFileSizeOf opts) data w2)
     \<and> sameEnv w w2 \<and> trace w2 = trace w @ map Stat ps
     \<and> (pending w = [] \<longrightarrow> pending w2 = [] \<and> files w2 = files w)
     \<and> (if avoidFileConflictsOf opts
        then files w2 fp = None
          \<and> (fp = fp0 \<or> (\<exists>j. fp = nextCandidate fp0 (extname fp0) (clock w j)))
        else fp = fp0)"
proof -
  from target have w1: "sameEnv w w1" "files w1 = files w" "pending w1 = pending w"
    "trace w1 = trace w"
    using resolveTarget_frame by blast+
  show ?thesis
  proof (cases "avoidFileConflictsOf opts")
    case False
    have "createFileUploadHandler opts args data w =
           Some (storeUpload fp0 args (maxFileSizeOf opts) data w1)"
      using False target by (simp add: createFileUploadHandler_def)
    moreover have "trace w1 = trace w @ map Stat []" using w1 by simp
    ultimately show ?thesis using False w1 by auto
  next
    case True
    with ends w1 have "finite (dom (files w1))" "clockUnbounded w1"
      by (simp_all add: probeCanEnd_def clockUnbounded_def sameEnv_def)
    from uniqueFile_returns [OF this, of fp0] obtain fp w2 where
      u: "uniqueFile fp0 w1 = Some (fp, w2)" and p: "probed fp0 (extname fp0) fp0 w1 fp w2"
      by blast
    from p have free: "files w2 fp = None"
      and shape: "fp = fp0 \<or> (\<exists>j. fp = nextCandidate fp0 (extname fp0) (clock w1 j))"
      and same: "sameEnv w1 w2"
      and quiet: "pending w1 = [] \<longrightarrow> pending w2 = [] \<and> files w2 = files w1"
      unfolding probed_def by blast+
    from p obtain ps where tr: "trace w2 = trace w1 @ map Stat ps"
      unfolding probed_def by blast
    show ?thesis
    proof (intro exI conjI)
      show "createFileUploadHandler opts args data w =
           Some (storeUpload fp args (maxFileSizeOf opts) data w2)"
        using True target u by (simp add: createFileUploadHandler_def)
      show "sameEnv w w2" using w1(1) same by (simp add: sameEnv_def)
      show "trace w2 = trace w @ map Stat ps" using tr w1(4) by simp
      show "pending w = [] \<longrightarrow> pending w2 = [] \<and> files w2 = files w"
        using quiet w1(2,3) by simp
      show "if avoidFileConflictsOf opts
        then files w2 fp = None
          \<and> (fp = fp0 \<or> (\<exists>j. fp = nextCandidate fp0 (extname fp0) (clock w j)))
        else fp = fp0"
        using True free shape w1(1) by (simp add: sameEnv_def)
    qed
  qed
qed

subsection \<open>Reading the log\<close>

lemma newEvents_append: "trace w' = trace w @ evs \<Longrightarrow> newEvents w w' = evs"
  by (simp add: newEvents_def)

lemma writeOpens_append: "writeOpens (xs @ ys) = writeOpens xs @ writeOpens ys"
  by (simp add: writeOpens_def)

lemma writeCloses_append: "writeCloses (xs @ ys) = writeCloses xs @ writeCloses ys"
  by (simp add: writeCloses_def)

lemma chunksWritten_append: "chunksWritten (xs @ ys) = chunksWritten xs @ chunksWritten ys"
  by (simp add: chunksWritten_def)

lemma removals_append: "removals (xs @ ys) = removals xs @ removals ys"
  by (simp add: removals_def)

lemma observe_Stat:
  "writeOpens (map Stat ps) = []" "writeCloses (map Stat ps) = []"
  "chunksWritten (map Stat ps) = []" "removals (map Stat ps) = []"
  by (induction ps) (simp_all add: writeOpens_def writeCloses_def chunksWritten_def removals_def)

lemma observe_Write:
  "writeOpens (map (Write fp) cs) = []" "writeCloses (map (Write fp) cs) = []"
  "chunksWritten (map (Write fp) cs) = cs" "removals (map (Write fp) cs) = []"
  by (induction cs) (simp_all add: writeOpens_def writeCloses_def chunksWritten_def removals_def)

lemma observe_Cons:
  "writeOpens (e # es) = (case e of OpenWrite p \<Rightarrow> [p] | _ \<Rightarrow> []) @ writeOpens es"
  "writeCloses (e # es) = (case e of CloseWrite p \<Rightarrow> [p] | _ \<Rightarrow> []) @ writeCloses es"
  "chunksWritten (e # es) = (case e of Write p c \<Rightarrow> [c] | _ \<Rightarrow> []) @ chunksWritten es"
  "removals (e # es) = (case e of Rm p \<Rightarrow> [p] | _ \<Rightarrow> []) @ removals es"
  by (simp_all add: writeOpens_def writeCloses_def chunksWritten_def removals_def)

lemma observe_Nil:
  "writeOpens [] = []" "writeCloses [] = []" "chunksWritten [] = []" "removals [] = []"
  by (simp_all add: writeOpens_def writeCloses_def chunksWritten_def removals_def)

lemmas observe = writeOpens_append writeCloses_append chunksWritten_append removals_append
  observe_Stat observe_Write observe_Cons observe_Nil

lemma not_skipped:
  "\<not> skipped opts args w \<Longrightarrow> \<exists>fp0 w1. resolveTarget opts args w = (Some fp0, w1)"
  unfolding skipped_def by (cases "resolveTarget opts args w") auto

lemma resolveTarget_None:
  assumes "filterRejects opts args \<or> resolveDir opts args w = None
      \<or> resolveFile opts args w = (None, w)"
  shows "resolveTarget opts args w = (None, w)"
proof (cases "filterRejects opts args")
  case True
  then show ?thesis by (simp add: resolveTarget_def)
next
  case notRejected: False
  show ?thesis
  proof (cases "resolveDir opts args w")
    case None
    with notRejected show ?thesis by (simp add: resolveTarget_def)
  next
    case (Some dir)
    with notRejected assms have "resolveFile opts args w = (None, w)" by simp
    with notRejected Some show ?thesis by (simp add: resolveTarget_def Let_def)
  qed
qed

subsection \<open>Reading back\<close>

lemma concat_chunksOf: "0 < n \<Longrightarrow> concat (chunksOf n xs) = xs"
proof (induction n xs rule: chunksOf.induct)
  case (1 n xs)
  show ?case
  proof (cases "xs = []")
    case True
    then show ?thesis by (subst chunksOf.simps) simp
  next
    case False
    with 1 have "concat (chunksOf n (drop n xs)) = drop n xs" by simp
    with False "1.prems" show ?thesis
      by (subst chunksOf.simps) simp
  qed
qed

lemma highWaterMark_pos: "0 < highWaterMark"
  by (simp add: highWaterMark_def)

lemma arrayBuffer_unsliced:
  assumes "slicer this = None" and "files (yield w) (filepath this) = Some content"
  shows "arrayBuffer this w = (Inr content, this, emit (OpenRead (filepath this)) (yield w))"
  using assms
  by (simp add: arrayBuffer_def openPiped_def createReadStream_def
      concat_chunksOf [OF highWaterMark_pos])

lemma arrayBuffer_trace:
  "trace (snd (snd (arrayBuffer this w))) = trace w @ [OpenRead (filepath this)]"
  by (simp add: arrayBuffer_def openPiped_def createReadStream_def emit_frame yield_frame
      split: prod.splits option.splits sum.splits)

lemma arrayBuffer_filepath:
  "filepath (fst (snd (arrayBuffer this w))) = filepath this"
  by (auto simp: arrayBuffer_def openPiped_def createReadStream_def
      split: prod.splits option.splits sum.splits)

lemma arrayBuffer_quiet:
  assumes "pending w = []"
  shows "pending (snd (snd (arrayBuffer this w))) = []"
    and "files (snd (snd (arrayBuffer this w))) = files w"
  using assms
  by (simp_all add: arrayBuffer_def openPiped_def createReadStream_def emit_frame yield_quiet
      split: prod.splits option.splits sum.splits)

subsection \<open>Slices and repeated reads\<close>

lemma transformChunks_concat:
  "concat (fst (transformChunks start end' offset cs)) =
     drop (nat (start - offset)) (take (nat (end' - offset)) (concat cs))"
proof (induction cs arbitrary: offset)
  case Nil
  show ?case by simp
next
  case (Cons c cs)
  obtain outs offset' where rest:
    "transformChunks start end' (offset + int (length c)) cs = (outs, offset')"
    by (cases "transformChunks start end' (offset + int (length c)) cs")
  from Cons.IH [of "offset + int (length c)"] rest
  have ih: "concat outs = drop (nat (start - (offset + int (length c))))
      (take (nat (end' - (offset + int (length c)))) (concat cs))"
    by simp
  have n1: "nat (start - (offset + int (length c))) = nat (start - offset) - length c"
    and n2: "nat (end' - (offset + int (length c))) = nat (end' - offset) - length c"
    by simp_all
  show ?case
  proof (cases "length c \<le> nat (end' - offset)")
    case True
    then show ?thesis
      using rest by (simp add: ih n1 n2 min_def)
  next
    case False
    then have "nat (end' - offset) - length c = 0" by simp
    then show ?thesis
      using rest False by (simp add: ih n1 n2 min_def)
  qed
qed

lemma arrayBuffer_fresh_slice:
  assumes "slicer this = Some s" and "\<not> sliceEnded s" and "sliceOffset s = 0"
    and "files (yield w) (filepath this) = Some content"
  shows "fst (arrayBuffer this w) =
     Inr (drop (nat (sliceStart s)) (take (nat (sliceEnd s)) content))"
proof -
  obtain outs offset' where
    t: "transformChunks (sliceStart s) (sliceEnd s) 0 (chunksOf highWaterMark content)
          = (outs, offset')"
    by (cases "transformChunks (sliceStart s) (sliceEnd s) 0 (chunksOf highWaterMark content)")
  from transformChunks_concat [of "sliceStart s" "sliceEnd s" 0 "chunksOf highWaterMark content"] t
  have "concat outs = drop (nat (sliceStart s)) (take (nat (sliceEnd s)) content)"
    by (simp add: concat_chunksOf [OF highWaterMark_pos])
  then show ?thesis
    using assms t by (simp add: arrayBuffer_def openPiped_def createReadStream_def pipe_def)
qed

lemma slice_reads_backing_window:
  assumes "files (yield w) (filepath this) = Some content"
  shows "fst (arrayBuffer (slice this (Some start) (Some end') ct) w) =
     Inr (drop (nat start) (take (nat end') content))"
proof -
  let ?g = "slice this (Some start) (Some end') ct"
  have "slicer ?g = Some (streamSlice start end')" "filepath ?g = filepath this"
    by (simp_all add: slice_def newNodeOnDiskFile_def)
  from arrayBuffer_fresh_slice [OF this(1), of w content] this(2) assms
  show ?thesis by (simp add: streamSlice_def)
qed

lemma slice_without_arguments:
  assumes "files (yield w) (filepath this) = Some content"
    and "size' this = int (length content)"
  shows "fst (arrayBuffer (slice this None None ct) w) = Inr content"
proof -
  let ?g = "slice this None None ct"
  have "slicer ?g = Some (streamSlice 0 (int (length content)))" "filepath ?g = filepath this"
    using assms(2) by (simp_all add: slice_def newNodeOnDiskFile_def Let_def)
  from arrayBuffer_fresh_slice [OF this(1), of w content] this(2) assms(1)
  show ?thesis by (simp add: streamSlice_def)
qed

lemma arrayBuffer_ends_slicer:
  assumes "slicer this = Some s" and "files (yield w) (filepath this) = Some content"
  shows "\<exists>s'. slicer (fst (snd (arrayBuffer this w))) = Some s' \<and> sliceEnded s'"
proof (cases "sliceEnded s")
  case True
  with assms show ?thesis
    by (simp add: arrayBuffer_def openPiped_def createReadStream_def pipe_def)
next
  case False
  obtain outs offset' where
    t: "transformChunks (sliceStart s) (sliceEnd s) (sliceOffset s) (chunksOf highWaterMark content)
          = (outs, offset')"
    by (cases "transformChunks (sliceStart s) (sliceEnd s) (sliceOffset s)
          (chunksOf highWaterMark content)")
  with False assms show ?thesis
    by (simp add: arrayBuffer_def openPiped_def createReadStream_def pipe_def)
qed

lemma arrayBuffer_ended_slicer:
  assumes "slicer this = Some s" and "sliceEnded s"
    and "files (yield w) (filepath this) = Some content"
  shows "fst (arrayBuffer this w) = Inl StreamEnded"
  using assms by (simp add: arrayBuffer_def openPiped_def createReadStream_def pipe_def)

lemma sliced_second_read_fails:
  assumes "slicer this = Some s" and "pending w = []"
    and "files w (filepath this) = Some content"
  shows "fst (arrayBuffer (fst (snd (arrayBuffer this w))) (snd (snd (arrayBuffer this w))))
     = Inl StreamEnded"
proof -
  let ?this1 = "fst (snd (arrayBuffer this w))"
  let ?w1 = "snd (snd (arrayBuffer this w))"
  have now: "files (yield w) (filepath this) = Some content"
    using assms(2,3) by (simp add: yield_quiet)
  from arrayBuffer_ends_slicer [OF assms(1) now] obtain s' where
    s': "slicer ?this1 = Some s'" "sliceEnded s'"
    by blast
  have "pending ?w1 = []" "files ?w1 = files w"
    using assms(2) by (rule arrayBuffer_quiet)+
  then have "files (yield ?w1) (filepath ?this1) = Some content"
    using assms(3) by (simp add: yield_quiet arrayBuffer_filepath)
  with s' show ?thesis by (rule arrayBuffer_ended_slicer)
qed

lemma unsliced_rereadable:
  assumes "slicer this = None" and "pending w = []"
    and "files w (filepath this) = Some content"
  shows "fst (arrayBuffer this w) = Inr content
     \<and> fst (arrayBuffer (fst (snd (arrayBuffer this w))) (snd (snd (arrayBuffer this w))))
         = Inr content"
proof -
  let ?w1 = "emit (OpenRead (filepath this)) (yield w)"
  have now: "files (yield w) (filepath this) = Some content"
    using assms(2,3) by (simp add: yield_quiet)
  with assms(1) have first: "arrayBuffer this w = (Inr content, this, ?w1)"
    by (rule arrayBuffer_unsliced)
  have "pending ?w1 = []" "files ?w1 = files w"
    using assms(2) by (simp_all add: emit_frame yield_quiet)
  then have "files (yield ?w1) (filepath this) = Some content"
    using assms(3) by (simp add: yield_quiet)
  with assms(1) have "arrayBuffer this ?w1 =
      (Inr content, this, emit (OpenRead (filepath this)) (yield ?w1))"
    by (rule arrayBuffer_unsliced)
  with first show ?thesis by simp
qed

lemma sixWorld_quiet: "pending sixWorld = []"
  by (simp add: sixWorld_def exampleWorld_def)

lemma sixFile_backing: "files sixWorld (filepath sixFile) = Some [1, 2, 3, 4, 5, 6]"
  by (simp add: sixWorld_def sixFile_def newNodeOnDiskFile_def)

lemma sixFile_backing_now: "files (yield sixWorld) (filepath sixFile) = Some [1, 2, 3, 4, 5, 6]"
  using sixFile_backing by (simp add: yield_quiet [OF sixWorld_quiet])

lemma slice_backing: "filepath (slice this start end' ct) = filepath this"
  by (simp add: slice_def newNodeOnDiskFile_def Let_def)

lemma slice_slicer:
  "slicer (slice this start end' ct) =
     Some (streamSlice (case start of None \<Rightarrow> 0 | Some s \<Rightarrow> s)
             (case end' of None \<Rightarrow> size' this | Some e \<Rightarrow> e))"
  by (simp add: slice_def newNodeOnDiskFile_def Let_def split: option.splits)

subsection \<open>The example world\<close>

lemma exampleWorld_clockUnbounded: "clockUnbounded exampleWorld"
  unfolding clockUnbounded_def
proof (intro allI)
  fix n :: nat and t :: int
  have "n \<le> n + nat (t + 1)" and "t < int (n + nat (t + 1))" by simp_all
  then show "\<exists>m. n \<le> m \<and> t < clock exampleWorld m"
    unfolding exampleWorld_def by (intro exI [of _ "n + nat (t + 1)"]) simp
qed

lemma exampleWorld_probeCanEnd: "probeCanEnd opts exampleWorld"
  unfolding probeCanEnd_def
  using exampleWorld_clockUnbounded by (simp add: exampleWorld_def)

lemma example_not_skipped: "\<not> skipped exampleOptions exampleArgs exampleWorld"
  by (simp add: skipped_def resolveTarget_def filterRejects_def resolveDir_def resolveFile_def
      exampleOptions_def exampleWorld_def Let_def)

subsection \<open>Runs in which no stream operation completes before the handler returns\<close>

lemma yield_lazy: "schedule w (awaits w) = 0 \<Longrightarrow> yield w = w\<lparr>awaits := Suc (awaits w)\<rparr>"
  by (simp add: yield_def)

lemma example_paths:
  "extname ''/tmp/a.png'' = ''.png''"
  "dirname ''/tmp/a-0.png'' = ''/tmp''"
  "ancestors ''/tmp/a-0.png'' = [''/tmp'']"
  "nextCandidate ''/tmp/a.png'' ''.png'' 0 = ''/tmp/a-0.png''"
  by code_simp+

lemma lazy_target:
  assumes "tmpdir w = ''/tmp''" and "cwd w = ''/home/u''"
    and "file' opts = Some (PathString ''a.png'')" and "directory opts = None"
    and "filter' opts = None"
  shows "resolveTarget opts exampleArgs w = (Some ''/tmp/a.png'', w)"
  using assms
  by (simp add: resolveTarget_def filterRejects_def resolveDir_def resolveFile_def
      Let_def resolvePath_def normalizeString_def normalizeStep_def)

lemma lazy_unique:
  assumes lazy: "schedule w = (\<lambda>n. 0)"
    and taken: "files w ''/tmp/a.png'' \<noteq> None"
    and free: "files w ''/tmp/a-0.png'' = None"
    and now: "clock w (clockReads w) = 0"
  shows "uniqueFile ''/tmp/a.png'' w
    = Some (''/tmp/a-0.png'',
        w\<lparr>trace := trace w @ [Stat ''/tmp/a.png'', Stat ''/tmp/a-0.png''],
          awaits := Suc (Suc (awaits w)), clockReads := Suc (clockReads w)\<rparr>)"
proof -
  have y0: "yield w = w\<lparr>awaits := Suc (awaits w)\<rparr>"
    by (simp add: yield_lazy lazy)
  have taken': "files (yield w) ''/tmp/a.png'' \<noteq> None"
    unfolding y0 using taken by simp
  let ?w1 = "probeStep ''/tmp/a.png'' w"
  have step: "?w1 = w\<lparr>trace := trace w @ [Stat ''/tmp/a.png''], awaits := Suc (awaits w),
      clockReads := Suc (clockReads w)\<rparr>"
    unfolding probeStep_def y0 by (simp add: emit_def)
  have y1: "yield ?w1 = ?w1\<lparr>awaits := Suc (Suc (awaits w))\<rparr>"
    unfolding step by (simp add: yield_lazy lazy)
  have free': "files (yield ?w1) ''/tmp/a-0.png'' = None"
    unfolding y1 unfolding step using free by simp
  have "uniqueFileLoop ''/tmp/a.png'' ''.png'' ''/tmp/a.png'' w
      = uniqueFileLoop ''/tmp/a.png'' ''.png''
          (nextCandidate ''/tmp/a.png'' ''.png'' (clock w (clockReads w))) ?w1"
    using taken' by (rule uniqueFileLoop_taken)
  also have "\<dots> = Some (''/tmp/a-0.png'', emit (Stat ''/tmp/a-0.png'') (yield ?w1))"
    unfolding now example_paths using free' by (rule uniqueFileLoop_free)
  also have "emit (Stat ''/tmp/a-0.png'') (yield ?w1)
      = w\<lparr>trace := trace w @ [Stat ''/tmp/a.png'', Stat ''/tmp/a-0.png''],
          awaits := Suc (Suc (awaits w)), clockReads := Suc (clockReads w)\<rparr>"
    unfolding y1 unfolding step by (simp add: emit_def)
  finally show ?thesis by (simp add: uniqueFile_def example_paths)
qed

lemmas store_defs = storeUpload_def mkdir_def createWriteStream_def writeChunk_def
  closeWriteStream_def rm_def emit_def yield_lazy Let_def

lemma lazy_store_over:
  assumes "schedule w = (\<lambda>n. 0)"
  shows "\<exists>w'. storeUpload ''/tmp/a-0.png'' exampleArgs 10 exampleData w
         = (Inl (MeterError ''avatar'' 10), w')
     \<and> trace w' = trace w @ [Mkdir ''/tmp'', OpenWrite ''/tmp/a-0.png'',
          Write ''/tmp/a-0.png'' [1, 2, 3, 4], Write ''/tmp/a-0.png'' [5, 6, 7, 8],
          CloseWrite ''/tmp/a-0.png'', Rm ''/tmp/a-0.png'']
     \<and> files w' = (files w)(''/tmp/a-0.png'' := None)
     \<and> pending w' = pending w @ [StreamOpen ''/tmp/a-0.png'',
          StreamWrite ''/tmp/a-0.png'' [1, 2, 3, 4],
          StreamWrite ''/tmp/a-0.png'' [5, 6, 7, 8], StreamClose ''/tmp/a-0.png'']"
  using assms by (simp add: store_defs example_paths exampleData_def exampleArgs_def)

lemma lazy_store_within:
  assumes "schedule w = (\<lambda>n. 0)"
  shows "\<exists>w'. storeUpload ''/tmp/a-0.png'' exampleArgs 100 exampleData w
         = (Inr (Some (newNodeOnDiskFile ''/tmp/a-0.png'' 12 ''image/png'' None)), w')
     \<and> files w' = files w \<and> schedule w' = schedule w \<and> uncaught w' = uncaught w
     \<and> clock w' = clock w \<and> clockReads w' = clockReads w
     \<and> cwd w' = cwd w \<and> tmpdir w' = tmpdir w
     \<and> pending w' = pending w @ [StreamOpen ''/tmp/a-0.png'',
          StreamWrite ''/tmp/a-0.png'' [1, 2, 3, 4], StreamWrite ''/tmp/a-0.png'' [5, 6, 7, 8],
          StreamWrite ''/tmp/a-0.png'' [9, 10, 11, 12], StreamClose ''/tmp/a-0.png'']"
  using assms by (simp add: store_defs example_paths exampleData_def exampleArgs_def)

lemma lazy_handler_within:
  assumes lazy: "schedule w = (\<lambda>n. 0)"
    and taken: "files w ''/tmp/a.png'' \<noteq> None"
    and free: "files w ''/tmp/a-0.png'' = None"
    and now: "clock w (clockReads w) = 0"
    and dirs: "tmpdir w = ''/tmp''" "cwd w = ''/home/u''"
  shows "\<exists>w'. createFileUploadHandler roomyOptions exampleArgs exampleData w
         = Some (Inr (Some (newNodeOnDiskFile ''/tmp/a-0.png'' 12 ''image/png'' None)), w')
     \<and> files w' = files w \<and> schedule w' = schedule w \<and> uncaught w' = uncaught w
     \<and> clock w' = clock w \<and> clockReads w' = Suc (clockReads w)
     \<and> cwd w' = cwd w \<and> tmpdir w' = tmpdir w
     \<and> pending w' = pending w @ [StreamOpen ''/tmp/a-0.png'',
          StreamWrite ''/tmp/a-0.png'' [1, 2, 3, 4], StreamWrite ''/tmp/a-0.png'' [5, 6, 7, 8],
          StreamWrite ''/tmp/a-0.png'' [9, 10, 11, 12], StreamClose ''/tmp/a-0.png'']"
proof -
  let ?w2 = "w\<lparr>trace := trace w @ [Stat ''/tmp/a.png'', Stat ''/tmp/a-0.png''],
          awaits := Suc (Suc (awaits w)), clockReads := Suc (clockReads w)\<rparr>"
  have target: "resolveTarget roomyOptions exampleArgs w = (Some ''/tmp/a.png'', w)"
    using dirs by (rule lazy_target) (simp_all add: roomyOptions_def exampleOptions_def)
  have opts: "avoidFileConflictsOf roomyOptions" "maxFileSizeOf roomyOptions = 100"
    by (simp_all add: avoidFileConflictsOf_def maxFileSizeOf_def roomyOptions_def
        exampleOptions_def)
  have handler: "createFileUploadHandler roomyOptions exampleArgs exampleData w
      = Some (storeUpload ''/tmp/a-0.png'' exampleArgs 100 exampleData ?w2)"
    by (simp add: createFileUploadHandler_def target opts
        lazy_unique [OF lazy taken free now])
  have "schedule ?w2 = (\<lambda>n. 0)" using lazy by simp
  from lazy_store_within [OF this] show ?thesis
    unfolding handler by simp
qed

lemma settle_files: "files (settle w) = files (performAll (pending w) w)"
  by (simp add: settle_def)

lemma perform_open:
  "ancestors p = qs \<Longrightarrow> \<not> list_ex (\<lambda>q. files w q \<noteq> None) qs \<Longrightarrow>
   perform (StreamOpen p) w = w\<lparr>files := (files w)(p \<mapsto> [])\<rparr>"
  by (simp add: perform_def openFails_def)

lemma perform_write:
  "files w p = Some old \<Longrightarrow>
   perform (StreamWrite p c) w = w\<lparr>files := (files w)(p \<mapsto> old @ c)\<rparr>"
  by (simp add: perform_def)

lemma perform_close: "perform (StreamClose p) w = w"
  by (simp add: perform_def)

lemma lazy_handler_over:
  "\<exists>w'. createFileUploadHandler exampleOptions exampleArgs exampleData exampleWorld
         = Some (Inl (MeterError ''avatar'' 10), w')
     \<and> trace w' = [Stat ''/tmp/a.png'', Stat ''/tmp/a-0.png'', Mkdir ''/tmp'',
          OpenWrite ''/tmp/a-0.png'',
          Write ''/tmp/a-0.png'' [1, 2, 3, 4], Write ''/tmp/a-0.png'' [5, 6, 7, 8],
          CloseWrite ''/tmp/a-0.png'', Rm ''/tmp/a-0.png'']
     \<and> files w' = (files exampleWorld)(''/tmp/a-0.png'' := None)
     \<and> pending w' = [StreamOpen ''/tmp/a-0.png'',
          StreamWrite ''/tmp/a-0.png'' [1, 2, 3, 4],
          StreamWrite ''/tmp/a-0.png'' [5, 6, 7, 8], StreamClose ''/tmp/a-0.png'']"
proof -
  let ?w2 = "exampleWorld\<lparr>trace := trace exampleWorld @ [Stat ''/tmp/a.png'', Stat ''/tmp/a-0.png''],
          awaits := Suc (Suc (awaits exampleWorld)), clockReads := Suc (clockReads exampleWorld)\<rparr>"
  have target: "resolveTarget exampleOptions exampleArgs exampleWorld
      = (Some ''/tmp/a.png'', exampleWorld)"
    by (rule lazy_target) (simp_all add: exampleOptions_def exampleWorld_def)
  have opts: "avoidFileConflictsOf exampleOptions" "maxFileSizeOf exampleOptions = 10"
    by (simp_all add: avoidFileConflictsOf_def maxFileSizeOf_def exampleOptions_def)
  have unique: "uniqueFile ''/tmp/a.png'' exampleWorld = Some (''/tmp/a-0.png'', ?w2)"
    by (rule lazy_unique) (simp_all add: exampleWorld_def)
  have handler: "createFileUploadHandler exampleOptions exampleArgs exampleData exampleWorld
      = Some (storeUpload ''/tmp/a-0.png'' exampleArgs 10 exampleData ?w2)"
    by (simp add: createFileUploadHandler_def target opts unique)
  have "schedule ?w2 = (\<lambda>n. 0)" by (simp add: exampleWorld_def)
  from lazy_store_over [OF this] show ?thesis
    unfolding handler by (simp add: exampleWorld_def)
qed

lemma settle_five:
  assumes fs: "files w ''/tmp'' = None"
    and pe: "pending w = ops @ [StreamOpen ''/tmp/a-0.png'',
          StreamWrite ''/tmp/a-0.png'' [1, 2, 3, 4], StreamWrite ''/tmp/a-0.png'' [5, 6, 7, 8],
          StreamWrite ''/tmp/a-0.png'' [9, 10, 11, 12], StreamClose ''/tmp/a-0.png'']"
    and before: "files (performAll ops w) ''/tmp'' = None"
  shows "files (settle w)
    = (files (performAll ops w))(''/tmp/a-0.png'' \<mapsto> [1, 2, 3, 4, 5, 6, 7, 8, 9, 10, 11, 12])"
proof -
  let ?v = "performAll ops w"
  have split: "performAll (xs @ ys) u = performAll ys (performAll xs u)" for xs ys u
    by (induction xs arbitrary: u) simp_all
  have opened: "perform (StreamOpen ''/tmp/a-0.png'') ?v
      = ?v\<lparr>files := (files ?v)(''/tmp/a-0.png'' \<mapsto> [])\<rparr>"
    by (rule perform_open [OF example_paths(3)]) (simp add: before)
  show ?thesis
    by (simp add: settle_files pe split opened perform_write perform_close)
qed

subsection \<open>What holds in every run\<close>

lemma performAll_append: "performAll (xs @ ys) w = performAll ys (performAll xs w)"
  by (induction xs arbitrary: w) simp_all

lemma perform_files_cong: "files v = files w \<Longrightarrow> files (perform a v) = files (perform a w)"
  by (cases a) (simp_all add: perform_def openFails_def split: option.splits)

lemma performAll_files_cong:
  "files v = files w \<Longrightarrow> files (performAll as v) = files (performAll as w)"
proof (induction as arbitrary: v w)
  case Nil
  then show ?case by simp
next
  case (Cons a as)
  from Cons.prems have "files (perform a v) = files (perform a w)"
    by (rule perform_files_cong)
  then have "files (performAll as (perform a v)) = files (performAll as (perform a w))"
    by (rule Cons.IH)
  then show ?case by simp
qed

lemma settle_yield: "files (settle (yield w)) = files (settle w)"
proof -
  let ?n = "schedule w (awaits w)"
  let ?v = "performAll (take ?n (pending w)) w"
  have "files (settle (yield w)) = files (performAll (drop ?n (pending w)) (yield w))"
    by (simp add: settle_files yield_def)
  also have "\<dots> = files (performAll (drop ?n (pending w)) ?v)"
    by (rule performAll_files_cong) (simp add: yield_def)
  also have "\<dots> = files (performAll (take ?n (pending w) @ drop ?n (pending w)) w)"
    by (simp only: performAll_append)
  finally show ?thesis by (simp add: settle_files)
qed

lemma settle_emit: "files (settle (emit e w)) = files (settle w)"
proof -
  have "files (settle (emit e w)) = files (performAll (pending w) (emit e w))"
    by (simp add: settle_files emit_def)
  also have "\<dots> = files (performAll (pending w) w)"
    by (rule performAll_files_cong) (simp add: emit_def)
  finally show ?thesis by (simp add: settle_files)
qed

lemma settle_queue:
  "files (settle (w\<lparr>pending := pending w @ [a]\<rparr>)) = files (perform a (settle w))"
proof -
  have "files (settle (w\<lparr>pending := pending w @ [a]\<rparr>))
      = files (performAll (pending w @ [a]) (w\<lparr>pending := pending w @ [a]\<rparr>))"
    by (simp add: settle_files)
  also have "\<dots> = files (performAll (pending w @ [a]) w)"
    by (rule performAll_files_cong) simp
  also have "\<dots> = files (perform a (performAll (pending w) w))"
    by (simp add: performAll_append)
  also have "\<dots> = files (perform a (settle w))"
    by (rule perform_files_cong) (simp add: settle_files)
  finally show ?thesis .
qed

lemma settle_calls:
  "files (settle (mkdir d w)) = files (settle w)"
  "files (settle (createWriteStream p w)) = files (perform (StreamOpen p) (settle w))"
  "files (settle (writeChunk p c w)) = files (perform (StreamWrite p c) (settle w))"
  "files (settle (closeWriteStream p w)) = files (perform (StreamClose p) (settle w))"
  by (simp_all add: mkdir_def createWriteStream_def writeChunk_def closeWriteStream_def
      settle_emit settle_yield settle_queue)

lemma copyChunks_flush:
  "sz + int (length (concat cs)) \<le> limit \<Longrightarrow>
   files (settle (snd (snd (snd (copyChunks fp field limit cs sz w)))))
     = files (performAll (map (StreamWrite fp) cs) (settle w))"
proof (induction cs arbitrary: sz w)
  case Nil
  then show ?case by (simp add: settle_yield)
next
  case (Cons c cs)
  let ?w1 = "writeChunk fp c (yield w)"
  from Cons.prems have fits: "sz + int (length c) + int (length (concat cs)) \<le> limit"
    and now: "\<not> limit < sz + int (length c)" by simp_all
  have "files (settle ?w1) = files (perform (StreamWrite fp c) (settle (yield w)))"
    by (rule settle_calls)
  also have "\<dots> = files (perform (StreamWrite fp c) (settle w))"
    by (rule perform_files_cong) (rule settle_yield)
  finally have "files (performAll (map (StreamWrite fp) cs) (settle ?w1))
      = files (performAll (map (StreamWrite fp) cs) (perform (StreamWrite fp c) (settle w)))"
    by (rule performAll_files_cong)
  with Cons.IH [OF fits, of ?w1] now show ?case by simp
qed

lemma performAll_writes:
  "files w p = Some old \<Longrightarrow>
   files (performAll (map (StreamWrite p) cs) w) = (files w)(p \<mapsto> old @ concat cs)"
proof (induction cs arbitrary: w old)
  case Nil
  then show ?case by (simp add: fun_upd_idem)
next
  case (Cons c cs)
  let ?w1 = "perform (StreamWrite p c) w"
  from Cons.prems have w1: "?w1 = w\<lparr>files := (files w)(p \<mapsto> old @ c)\<rparr>"
    by (rule perform_write)
  then have "files ?w1 p = Some (old @ c)" by simp
  from Cons.IH [OF this] have "files (performAll (map (StreamWrite p) cs) ?w1)
      = (files ?w1)(p \<mapsto> (old @ c) @ concat cs)" .
  also have "files ?w1 = (files w)(p \<mapsto> old @ c)" by (simp add: w1)
  finally show ?case by (simp only: performAll.simps list.map fun_upd_upd concat.simps append_assoc)
qed

lemma storeUpload_flush:
  assumes fits: "int (length (concat data)) \<le> limit"
    and quiet: "pending w = []" and opens: "\<not> openFails fp w"
  shows "files (settle (snd (storeUpload fp args limit data w))) = (files w)(fp \<mapsto> concat data)"
proof -
  let ?w0 = "createWriteStream fp (mkdir (dirname fp) w)"
  from copyChunks_within [of 0 data limit fp "name args" ?w0] fits obtain w1 where
    run: "copyChunks fp (name args) limit data 0 ?w0 =
      (None, int (length (concat data)), False, w1)"
    by auto
  from copyChunks_flush [of 0 data limit fp "name args" ?w0] fits run
  have w1: "files (settle w1) = files (performAll (map (StreamWrite fp) data) (settle ?w0))"
    by simp
  have quiet_files: "files (settle w) = files w"
    using quiet by (simp add: settle_files)
  have "files (settle ?w0) = files (perform (StreamOpen fp) (settle (mkdir (dirname fp) w)))"
    by (rule settle_calls)
  also have "\<dots> = files (perform (StreamOpen fp) w)"
    by (rule perform_files_cong) (simp only: settle_calls(1) quiet_files)
  also have "\<dots> = (files w)(fp \<mapsto> [])"
    using opens by (simp add: perform_def)
  finally have w0: "files (settle ?w0) = (files w)(fp \<mapsto> [])" .
  then have "files (settle ?w0) fp = Some []" by simp
  from performAll_writes [OF this, of data]
  have "files (settle w1) = (files w)(fp \<mapsto> concat data)"
    by (simp add: w1 w0)
  moreover have "snd (storeUpload fp args limit data w) = closeWriteStream fp w1"
    by (simp add: storeUpload_def run)
  ultimately show ?thesis
    by (simp add: settle_calls perform_close)
qed

lemma storeUpload_exceeds_absent:
  assumes "0 \<le> limit" and "limit < int (length (concat data))"
  shows "files (snd (storeUpload fp args limit data w)) fp = None"
proof -
  let ?w0 = "createWriteStream fp (mkdir (dirname fp) w)"
  from copyChunks_exceeds [of 0 limit data fp "name args" ?w0] assms
  obtain sz' w1 where
    run: "copyChunks fp (name args) limit data 0 ?w0 =
         (Some (MeterError (name args) limit), sz', True, w1)"
    by auto
  have "snd (storeUpload fp args limit data w) = rm fp (closeWriteStream fp w1)"
    by (simp add: storeUpload_def run)
  then show ?thesis by (simp add: rm_def emit_def)
qed

lemma storeUpload_empty:
  "fst (storeUpload fp args limit [] w) = Inr (Some (newNodeOnDiskFile fp 0 (contentType args) None))"
  by (simp add: storeUpload_def)

lemma size_limit_throws:
  assumes "\<not> skipped opts args w" and "probeCanEnd opts w"
    and "0 \<le> maxFileSizeOf opts"
    and "maxFileSizeOf opts < int (length (concat data))"
  shows "\<exists>w' fp pre c rest.
       createFileUploadHandler opts args data w =
         Some (Inl (MeterError (name args) (maxFileSizeOf opts)), w')
     \<and> writeOpens (newEvents w w') = [fp]
     \<and> data = pre @ c # rest
     \<and> int (length (concat pre)) \<le> maxFileSizeOf opts
     \<and> maxFileSizeOf opts < int (length (concat (pre @ [c])))
     \<and> chunksWritten (newEvents w w') = pre
     \<and> removals (newEvents w w') = [fp]
     \<and> files w' fp = None"
proof -
  from not_skipped [OF assms(1)] obtain fp0 w1 where
    "resolveTarget opts args w = (Some fp0, w1)" by blast
  from handler_stores [OF this assms(2), of data] obtain fp w2 ps where
    run: "createFileUploadHandler opts args data w =
           Some (storeUpload fp args (maxFileSizeOf opts) data w2)" and
    tr: "trace w2 = trace w @ map Stat ps"
    by blast
  from storeUpload_exceeds [OF assms(3,4), of fp args w2] obtain pre c rest w' where
    data: "data = pre @ c # rest" and
    lo: "int (length (concat pre)) \<le> maxFileSizeOf opts" and
    hi: "maxFileSizeOf opts < int (length (concat (pre @ [c])))" and
    st: "storeUpload fp args (maxFileSizeOf opts) data w2 =
         (Inl (MeterError (name args) (maxFileSizeOf opts)), w')" and
    tr': "trace w' = trace w2 @ [Mkdir (dirname fp), OpenWrite fp] @ map (Write fp) pre
                       @ [CloseWrite fp, Rm fp]"
    by blast
  from storeUpload_exceeds_absent [OF assms(3,4), of fp args w2] st
  have absent: "files w' fp = None" by simp
  have "trace w' = trace w @ (map Stat ps @ [Mkdir (dirname fp), OpenWrite fp]
           @ map (Write fp) pre @ [CloseWrite fp, Rm fp])"
    using tr tr' by simp
  then have ev: "newEvents w w' = map Stat ps @ [Mkdir (dirname fp), OpenWrite fp]
           @ map (Write fp) pre @ [CloseWrite fp, Rm fp]"
    by (rule newEvents_append)
  show ?thesis
  proof (intro exI conjI)
    show "createFileUploadHandler opts args data w =
         Some (Inl (MeterError (name args) (maxFileSizeOf opts)), w')"
      using run st by simp
    show "writeOpens (newEvents w w') = [fp]" "chunksWritten (newEvents w w') = pre"
      "removals (newEvents w w') = [fp]"
      unfolding ev by (simp_all add: observe)
    show "data = pre @ c # rest" by (rule data)
    show "int (length (concat pre)) \<le> maxFileSizeOf opts" by (rule lo)
    show "maxFileSizeOf opts < int (length (concat (pre @ [c])))" by (rule hi)
    show "files w' fp = None" by (rule absent)
  qed
qed

lemma openFails_cong: "files v = files w \<Longrightarrow> openFails p v = openFails p w"
  by (simp add: openFails_def)

lemma stored_file_once_flushed:
  assumes "\<not> skipped opts args w" and "probeCanEnd opts w"
    and fits: "int (length (concat data)) \<le> maxFileSizeOf opts"
  shows "\<exists>f w'. createFileUploadHandler opts args data w = Some (Inr (Some f), w')
     \<and> size' f = int (length (concat data))
     \<and> chunksWritten (newEvents w w') = data
     \<and> (pending w = [] \<and> \<not> openFails (filepath f) w \<longrightarrow>
          files (settle w') = (files w)(filepath f \<mapsto> concat data)
        \<and> fst (arrayBuffer f (settle w')) = Inr (concat data))"
proof -
  from not_skipped [OF assms(1)] obtain fp0 w1 where
    "resolveTarget opts args w = (Some fp0, w1)" by blast
  from handler_stores [OF this assms(2), of data] obtain fp w2 ps where
    run: "createFileUploadHandler opts args data w =
           Some (storeUpload fp args (maxFileSizeOf opts) data w2)" and
    tr: "trace w2 = trace w @ map Stat ps" and
    quiet: "pending w = [] \<longrightarrow> pending w2 = [] \<and> files w2 = files w"
    by blast
  let ?f = "newNodeOnDiskFile fp (int (length (concat data))) (contentType args) None"
  from storeUpload_within [OF fits, of fp args w2] obtain w' where
    st: "storeUpload fp args (maxFileSizeOf opts) data w2 = (Inr (Some ?f), w')" and
    tr': "trace w' = trace w2 @ [Mkdir (dirname fp), OpenWrite fp] @ map (Write fp) data
          @ [CloseWrite fp]"
    by blast
  have f: "slicer ?f = None" "filepath ?f = fp" "size' ?f = int (length (concat data))"
    by (simp_all add: newNodeOnDiskFile_def)
  have "trace w' = trace w @ (map Stat ps @ [Mkdir (dirname fp), OpenWrite fp]
           @ map (Write fp) data @ [CloseWrite fp])"
    using tr tr' by simp
  then have ev: "newEvents w w' = map Stat ps @ [Mkdir (dirname fp), OpenWrite fp]
           @ map (Write fp) data @ [CloseWrite fp]"
    by (rule newEvents_append)
  have written: "chunksWritten (newEvents w w') = data"
    unfolding ev by (simp add: observe)
  have flushed: "files (settle w') = (files w)(fp \<mapsto> concat data)
        \<and> fst (arrayBuffer ?f (settle w')) = Inr (concat data)"
    if "pending w = []" and opens: "\<not> openFails fp w"
  proof -
    from quiet that have w2: "pending w2 = []" "files w2 = files w" by simp_all
    from opens have "\<not> openFails fp w2" by (simp add: openFails_cong [OF w2(2)])
    from storeUpload_flush [OF fits w2(1) this, of args] st
    have fs: "files (settle w') = (files w)(fp \<mapsto> concat data)" by (simp add: w2)
    have "pending (settle w') = []" by (simp add: settle_def)
    then have "files (yield (settle w')) (filepath ?f) = Some (concat data)"
      by (simp add: yield_quiet fs f)
    from arrayBuffer_unsliced [OF f(1) this] fs show ?thesis by simp
  qed
  show ?thesis
  proof (intro exI conjI impI)
    show "createFileUploadHandler opts args data w = Some (Inr (Some ?f), w')"
      using run st by simp
    show "size' ?f = int (length (concat data))" by (rule f)
    show "chunksWritten (newEvents w w') = data" by (rule written)
    show "files (settle w') = (files w)(filepath ?f \<mapsto> concat data)"
      if "pending w = [] \<and> \<not> openFails (filepath ?f) w"
      using flushed that by (simp add: f)
    show "fst (arrayBuffer ?f (settle w')) = Inr (concat data)"
      if "pending w = [] \<and> \<not> openFails (filepath ?f) w"
      using flushed that by (simp add: f)
  qed
qed

subsection \<open>Files that a call leaves alone\<close>

lemma perform_other: "p \<noteq> actionPath a \<Longrightarrow> files (perform a w) p = files w p"
  by (cases a) (auto simp: perform_def actionPath_def split: option.splits)

lemma performAll_other:
  "p \<notin> set (map actionPath as) \<Longrightarrow> files (performAll as w) p = files w p"
  by (induction as arbitrary: w) (simp_all add: perform_other)

lemma yield_other:
  assumes "p \<notin> pendingOn w"
  shows "files (yield w) p = files w p" and "p \<notin> pendingOn (yield w)"
proof -
  let ?n = "schedule w (awaits w)"
  have "set (map actionPath (take ?n (pending w))) \<subseteq> pendingOn w"
    unfolding pendingOn_def by (auto dest: in_set_takeD)
  with assms have "p \<notin> set (map actionPath (take ?n (pending w)))" by blast
  then show "files (yield w) p = files w p"
    by (simp add: yield_def performAll_other)
  have "pendingOn (yield w) \<subseteq> pendingOn w"
    unfolding pendingOn_def by (auto simp: yield_def dest: in_set_dropD)
  with assms show "p \<notin> pendingOn (yield w)" by blast
qed

lemma settle_other: "p \<notin> pendingOn w \<Longrightarrow> files (settle w) p = files w p"
  by (simp add: settle_files performAll_other pendingOn_def)

lemma calls_other:
  assumes "p \<noteq> fp" and "p \<notin> pendingOn w"
  shows "files (mkdir d w) p = files w p \<and> p \<notin> pendingOn (mkdir d w)"
    and "files (createWriteStream fp w) p = files w p \<and> p \<notin> pendingOn (createWriteStream fp w)"
    and "files (writeChunk fp c w) p = files w p \<and> p \<notin> pendingOn (writeChunk fp c w)"
    and "files (closeWriteStream fp w) p = files w p \<and> p \<notin> pendingOn (closeWriteStream fp w)"
    and "files (rm fp w) p = files w p \<and> p \<notin> pendingOn (rm fp w)"
proof -
  note y = yield_other [OF assms(2)]
  show "files (mkdir d w) p = files w p \<and> p \<notin> pendingOn (mkdir d w)"
    using y by (simp add: mkdir_def emit_def pendingOn_def)
  show "files (createWriteStream fp w) p = files w p \<and> p \<notin> pendingOn (createWriteStream fp w)"
    using assms by (simp add: createWriteStream_def emit_def pendingOn_def actionPath_def)
  show "files (writeChunk fp c w) p = files w p \<and> p \<notin> pendingOn (writeChunk fp c w)"
    using assms by (simp add: writeChunk_def emit_def pendingOn_def actionPath_def)
  show "files (closeWriteStream fp w) p = files w p \<and> p \<notin> pendingOn (closeWriteStream fp w)"
    using assms by (simp add: closeWriteStream_def emit_def pendingOn_def actionPath_def)
  show "files (rm fp w) p = files w p \<and> p \<notin> pendingOn (rm fp w)"
    using y assms(1) by (simp add: rm_def emit_def pendingOn_def)
qed

lemma copyChunks_other:
  "p \<noteq> fp \<Longrightarrow> p \<notin> pendingOn w \<Longrightarrow>
   files (snd (snd (snd (copyChunks fp field limit cs sz w)))) p = files w p
     \<and> p \<notin> pendingOn (snd (snd (snd (copyChunks fp field limit cs sz w))))"
proof (induction cs arbitrary: sz w)
  case Nil
  then show ?case by (simp add: yield_other)
next
  case (Cons c cs)
  note y = yield_other [OF Cons.prems(2)]
  show ?case
  proof (cases "limit < sz + int (length c)")
    case True
    then show ?thesis using y by simp
  next
    case False
    let ?w1 = "writeChunk fp c (yield w)"
    from calls_other(3) [OF Cons.prems(1) y(2), of c]
    have w1: "files ?w1 p = files (yield w) p" "p \<notin> pendingOn ?w1" by simp_all
    from Cons.IH [OF Cons.prems(1) w1(2), of "sz + int (length c)"] w1(1) y(1) False
    show ?thesis by simp
  qed
qed

lemma storeUpload_other:
  assumes "p \<noteq> fp" and "p \<notin> pendingOn w"
  shows "files (snd (storeUpload fp args limit data w)) p = files w p
     \<and> p \<notin> pendingOn (snd (storeUpload fp args limit data w))"
proof -
  let ?w0 = "createWriteStream fp (mkdir (dirname fp) w)"
  from calls_other(1) [OF assms, of "dirname fp"]
  have m: "files (mkdir (dirname fp) w) p = files w p" "p \<notin> pendingOn (mkdir (dirname fp) w)"
    by simp_all
  from calls_other(2) [OF assms(1) m(2)] m(1)
  have w0: "files ?w0 p = files w p" "p \<notin> pendingOn ?w0" by simp_all
  obtain thrown sz' del w1 where
    run: "copyChunks fp (name args) limit data 0 ?w0 = (thrown, sz', del, w1)"
    by (cases "copyChunks fp (name args) limit data 0 ?w0")
  from copyChunks_other [OF assms(1) w0(2), of "name args" limit data 0] run w0(1)
  have w1: "files w1 p = files w p" "p \<notin> pendingOn w1" by simp_all
  let ?w2 = "closeWriteStream fp w1"
  from calls_other(4) [OF assms(1) w1(2)] w1(1)
  have w2: "files ?w2 p = files w p" "p \<notin> pendingOn ?w2" by simp_all
  from calls_other(5) [OF assms(1) w2(2)] w2(1)
  have w3: "files (rm fp ?w2) p = files w p" "p \<notin> pendingOn (rm fp ?w2)" by simp_all
  have "snd (storeUpload fp args limit data w) = (if del then rm fp ?w2 else ?w2)"
    by (cases thrown) (simp_all add: storeUpload_def run Let_def)
  with w2 w3 show ?thesis by simp
qed

lemma conflict_probed_again:
  assumes avoid: "avoidFileConflictsOf opts"
    and target: "resolveTarget opts args w = (Some fp0, w1)"
    and taken: "files w fp0 \<noteq> None"
    and quiet: "pending w = []"
    and fin: "finite (dom (files w))" and clk: "clockUnbounded w"
  shows "\<exists>r w' fp j. createFileUploadHandler opts args data w = Some (r, w')
           \<and> writeOpens (newEvents w w') = [fp]
           \<and> fp \<noteq> fp0
           \<and> fp = take (length fp0 - length (extname fp0)) fp0
                  @ ''-'' @ show_int (clock w j) @ extname fp0
           \<and> files w fp = None
           \<and> (\<forall>p. files w p \<noteq> None \<longrightarrow>
                 files w' p = files w p \<and> files (settle w') p = files w p)"
proof -
  have ends: "probeCanEnd opts w" using fin clk by (simp add: probeCanEnd_def)
  from handler_stores [OF target ends, of data] obtain fp w2 ps where
    hs: "createFileUploadHandler opts args data w =
           Some (storeUpload fp args (maxFileSizeOf opts) data w2)
     \<and> sameEnv w w2 \<and> trace w2 = trace w @ map Stat ps
     \<and> (pending w = [] \<longrightarrow> pending w2 = [] \<and> files w2 = files w)
     \<and> (if avoidFileConflictsOf opts
        then files w2 fp = None
          \<and> (fp = fp0 \<or> (\<exists>j. fp = nextCandidate fp0 (extname fp0) (clock w j)))
        else fp = fp0)"
    by (elim exE)
  from hs have run: "createFileUploadHandler opts args data w =
           Some (storeUpload fp args (maxFileSizeOf opts) data w2)" by (elim conjE)
  from hs have tr: "trace w2 = trace w @ map Stat ps" by (elim conjE)
  from hs quiet have w2: "pending w2 = []" "files w2 = files w" by simp_all
  from hs avoid w2 have free: "files w fp = None" by simp
  from hs avoid have "fp = fp0 \<or> (\<exists>j. fp = nextCandidate fp0 (extname fp0) (clock w j))"
    by simp
  moreover from free taken have neq: "fp \<noteq> fp0" by auto
  ultimately obtain j where j: "fp = nextCandidate fp0 (extname fp0) (clock w j)" by blast
  obtain r w' where st: "storeUpload fp args (maxFileSizeOf opts) data w2 = (r, w')"
    by (cases "storeUpload fp args (maxFileSizeOf opts) data w2")
  from storeUpload_trace [of fp args "maxFileSizeOf opts" data w2] st obtain pre del where
    "trace w' = trace w2 @ [Mkdir (dirname fp), OpenWrite fp] @ map (Write fp) pre
       @ [CloseWrite fp] @ (if del then [Rm fp] else [])"
    by auto
  with tr have "trace w' = trace w @ (map Stat ps @ [Mkdir (dirname fp), OpenWrite fp]
       @ map (Write fp) pre @ [CloseWrite fp] @ (if del then [Rm fp] else []))"
    by simp
  then have ev: "newEvents w w' = map Stat ps @ [Mkdir (dirname fp), OpenWrite fp]
       @ map (Write fp) pre @ [CloseWrite fp] @ (if del then [Rm fp] else [])"
    by (rule newEvents_append)
  have opens: "writeOpens (newEvents w w') = [fp]"
    unfolding ev by (simp add: observe)
  have kept: "\<forall>p. files w p \<noteq> None \<longrightarrow>
      files w' p = files w p \<and> files (settle w') p = files w p"
  proof (intro allI impI)
    fix p assume "files w p \<noteq> None"
    with free have "p \<noteq> fp" by auto
    moreover have "p \<notin> pendingOn w2" by (simp add: pendingOn_def w2)
    ultimately have "files (snd (storeUpload fp args (maxFileSizeOf opts) data w2)) p = files w2 p
     \<and> p \<notin> pendingOn (snd (storeUpload fp args (maxFileSizeOf opts) data w2))"
      by (rule storeUpload_other)
    with st have now: "files w' p = files w p" and later: "p \<notin> pendingOn w'"
      by (simp_all add: w2)
    from settle_other [OF later] now
    show "files w' p = files w p \<and> files (settle w') p = files w p" by simp
  qed
  show ?thesis
  proof (intro exI conjI)
    show "createFileUploadHandler opts args data w = Some (r, w')" using run st by simp
    show "writeOpens (newEvents w w') = [fp]" by (rule opens)
    show "fp \<noteq> fp0" by (rule neq)
    show "fp = take (length fp0 - length (extname fp0)) fp0
        @ ''-'' @ show_int (clock w j) @ extname fp0"
      using j by (simp only: nextCandidate_shape)
    show "files w fp = None" by (rule free)
    show "\<forall>p. files w p \<noteq> None \<longrightarrow>
        files w' p = files w p \<and> files (settle w') p = files w p" by (rule kept)
  qed
qed

subsection \<open>A destination that cannot be opened\<close>

lemma perform_open_fails:
  "openFails p w \<Longrightarrow> perform (StreamOpen p) w = w\<lparr>uncaught := uncaught w @ [OpenError p]\<rparr>"
  by (simp add: perform_def)

lemma performAll_writes_absent:
  "files w p = None \<Longrightarrow> files (performAll (map (StreamWrite p) cs) w) = files w"
proof (induction cs arbitrary: w)
  case Nil
  then show ?case by simp
next
  case (Cons c cs)
  from Cons.prems have "perform (StreamWrite p c) w = w" by (simp add: perform_def)
  with Cons.IH [OF Cons.prems] show ?case by simp
qed

lemma storeUpload_open_fails:
  assumes fits: "int (length (concat data)) \<le> limit"
    and quiet: "pending w = []" and fails: "openFails fp w" and absent: "files w fp = None"
  shows "fst (storeUpload fp args limit data w)
       = Inr (Some (newNodeOnDiskFile fp (int (length (concat data))) (contentType args) None))"
    and "files (settle (snd (storeUpload fp args limit data w))) = files w"
proof -
  let ?w0 = "createWriteStream fp (mkdir (dirname fp) w)"
  from copyChunks_within [of 0 data limit fp "name args" ?w0] fits obtain w1 where
    run: "copyChunks fp (name args) limit data 0 ?w0 =
      (None, int (length (concat data)), False, w1)"
    by auto
  show "fst (storeUpload fp args limit data w)
       = Inr (Some (newNodeOnDiskFile fp (int (length (concat data))) (contentType args) None))"
    by (simp add: storeUpload_def run)
  from copyChunks_flush [of 0 data limit fp "name args" ?w0] fits run
  have w1: "files (settle w1) = files (performAll (map (StreamWrite fp) data) (settle ?w0))"
    by simp
  have quiet_files: "files (settle w) = files w"
    using quiet by (simp add: settle_files)
  have "files (settle ?w0) = files (perform (StreamOpen fp) (settle (mkdir (dirname fp) w)))"
    by (rule settle_calls)
  also have "\<dots> = files (perform (StreamOpen fp) w)"
    by (rule perform_files_cong) (simp only: settle_calls(1) quiet_files)
  also have "\<dots> = files w"
    using fails by (simp add: perform_open_fails)
  finally have w0: "files (settle ?w0) = files w" .
  then have "files (settle ?w0) fp = None" using absent by simp
  from performAll_writes_absent [OF this, of data]
  have "files (settle w1) = files w"
    by (simp add: w1 w0)
  moreover have "snd (storeUpload fp args limit data w) = closeWriteStream fp w1"
    by (simp add: storeUpload_def run)
  ultimately show "files (settle (snd (storeUpload fp args limit data w))) = files w"
    by (simp add: settle_calls perform_close)
qed

lemma example_open_fails: "openFails ''/tmp/a.png/x.bin'' exampleWorld"
proof -
  have "ancestors ''/tmp/a.png/x.bin'' = [''/tmp'', ''/tmp/a.png'']" by code_simp
  then show ?thesis by (simp add: openFails_def exampleWorld_def)
qed

section \<open>The claims\<close>

text \<open>
  C1. The claim fails in its last part. \<^verbatim>\<open>createWriteStream\<close> opens the file later and
  \<^verbatim>\<open>write\<close> only queues the chunk; the handler never waits for the stream, and awaits
  \<^verbatim>\<open>rm\<close> straight after \<^verbatim>\<open>close()\<close>. In a run where none of the stream's operations has
  completed by then, \<^verbatim>\<open>rm\<close> finds no file, its failure is swallowed, and the stream
  creates the file afterwards. Three chunks of four bytes against a limit of ten bytes,
  in a directory that holds \<^verbatim>\<open>/tmp/a.png\<close>: the handler throws \<^verbatim>\<open>MeterError\<close> with the
  field name and the limit, the third chunk is not written, \<^verbatim>\<open>rm\<close> is called on the
  destination, which does not exist at that moment, and once the stream's operations
  have completed the destination exists and holds the first eight bytes. (What holds in
  every run, for a limit that is not negative: the error, the chunks written, the call
  of \<^verbatim>\<open>rm\<close> and the absence of the file when the error surfaces, lemma
  \<open>size_limit_throws\<close>. A stream without chunks gives a file whatever the limit, lemma
  \<open>storeUpload_empty\<close>.)
\<close>

theorem size_limit_leaves_partial_file:
  "\<exists>w'. createFileUploadHandler exampleOptions exampleArgs exampleData exampleWorld
         = Some (Inl (MeterError ''avatar'' 10), w')
     \<and> chunksWritten (newEvents exampleWorld w') = [[1, 2, 3, 4], [5, 6, 7, 8]]
     \<and> removals (newEvents exampleWorld w') = [''/tmp/a-0.png'']
     \<and> files w' ''/tmp/a-0.png'' = None
     \<and> files (settle w') ''/tmp/a-0.png'' = Some [1, 2, 3, 4, 5, 6, 7, 8]"
proof -
  from lazy_handler_over obtain w' where
    run: "createFileUploadHandler exampleOptions exampleArgs exampleData exampleWorld
         = Some (Inl (MeterError ''avatar'' 10), w')" and
    tr: "trace w' = [Stat ''/tmp/a.png'', Stat ''/tmp/a-0.png'', Mkdir ''/tmp'',
          OpenWrite ''/tmp/a-0.png'',
          Write ''/tmp/a-0.png'' [1, 2, 3, 4], Write ''/tmp/a-0.png'' [5, 6, 7, 8],
          CloseWrite ''/tmp/a-0.png'', Rm ''/tmp/a-0.png'']" and
    fs: "files w' = (files exampleWorld)(''/tmp/a-0.png'' := None)" and
    pe: "pending w' = [StreamOpen ''/tmp/a-0.png'',
          StreamWrite ''/tmp/a-0.png'' [1, 2, 3, 4],
          StreamWrite ''/tmp/a-0.png'' [5, 6, 7, 8], StreamClose ''/tmp/a-0.png'']"
    by (elim exE conjE)
  have ev: "newEvents exampleWorld w' = trace w'"
    by (simp add: newEvents_def exampleWorld_def)
  have written: "chunksWritten (newEvents exampleWorld w') = [[1, 2, 3, 4], [5, 6, 7, 8]]"
    unfolding ev tr by (simp add: chunksWritten_def)
  have removed: "removals (newEvents exampleWorld w') = [''/tmp/a-0.png'']"
    unfolding ev tr by (simp add: removals_def)
  have absent: "files w' ''/tmp/a-0.png'' = None"
    by (simp add: fs)
  have opened: "perform (StreamOpen ''/tmp/a-0.png'') w'
      = w'\<lparr>files := (files w')(''/tmp/a-0.png'' \<mapsto> [])\<rparr>"
    by (rule perform_open [OF example_paths(3)]) (simp add: fs exampleWorld_def)
  have later: "files (settle w') ''/tmp/a-0.png'' = Some [1, 2, 3, 4, 5, 6, 7, 8]"
    by (simp add: settle_files pe opened perform_write perform_close)
  from run written removed absent later show ?thesis by blast
qed

text \<open>
  C2. The claim fails in its second part. The handler returns after the last \<^verbatim>\<open>write\<close>
  and \<^verbatim>\<open>close()\<close> without waiting for the stream to open the file or to flush. Twelve
  bytes against a limit of a hundred, in a run where none of the stream's operations has
  completed when the handler returns: the file returned has size 12, \<^verbatim>\<open>arrayBuffer()\<close>
  called on it at once is rejected because the file does not exist, and the same call
  gives the twelve bytes once the stream's operations have completed. (What holds in
  every run: the size is the number of bytes streamed and the chunks handed to the
  stream are the chunks streamed; and for a handler called with nothing pending, whose
  destination can be opened, the file holds the bytes streamed and \<^verbatim>\<open>arrayBuffer()\<close>
  gives them back once the stream's operations have completed, lemma
  \<open>stored_file_once_flushed\<close>.)
\<close>

theorem read_after_return_finds_no_file:
  "\<exists>f w'. createFileUploadHandler roomyOptions exampleArgs exampleData exampleWorld
         = Some (Inr (Some f), w')
     \<and> size' f = 12
     \<and> fst (arrayBuffer f w') = Inl (FileReadError ''/tmp/a-0.png'')
     \<and> fst (arrayBuffer f (settle w')) = Inr [1, 2, 3, 4, 5, 6, 7, 8, 9, 10, 11, 12]"
proof -
  let ?f = "newNodeOnDiskFile ''/tmp/a-0.png'' 12 ''image/png'' None"
  have "\<exists>w'. createFileUploadHandler roomyOptions exampleArgs exampleData exampleWorld
         = Some (Inr (Some ?f), w')
     \<and> files w' = files exampleWorld \<and> schedule w' = schedule exampleWorld
     \<and> uncaught w' = uncaught exampleWorld
     \<and> clock w' = clock exampleWorld \<and> clockReads w' = Suc (clockReads exampleWorld)
     \<and> cwd w' = cwd exampleWorld \<and> tmpdir w' = tmpdir exampleWorld
     \<and> pending w' = pending exampleWorld @ [StreamOpen ''/tmp/a-0.png'',
          StreamWrite ''/tmp/a-0.png'' [1, 2, 3, 4], StreamWrite ''/tmp/a-0.png'' [5, 6, 7, 8],
          StreamWrite ''/tmp/a-0.png'' [9, 10, 11, 12], StreamClose ''/tmp/a-0.png'']"
    by (rule lazy_handler_within) (simp_all add: exampleWorld_def)
  then obtain w' where
    run: "createFileUploadHandler roomyOptions exampleArgs exampleData exampleWorld
         = Some (Inr (Some ?f), w')" and
    fs: "files w' = files exampleWorld" and
    sc: "schedule w' = schedule exampleWorld" and
    pe: "pending w' = pending exampleWorld @ [StreamOpen ''/tmp/a-0.png'',
          StreamWrite ''/tmp/a-0.png'' [1, 2, 3, 4], StreamWrite ''/tmp/a-0.png'' [5, 6, 7, 8],
          StreamWrite ''/tmp/a-0.png'' [9, 10, 11, 12], StreamClose ''/tmp/a-0.png'']"
    by (elim exE conjE)
  have f: "slicer ?f = None" "filepath ?f = ''/tmp/a-0.png''" "size' ?f = 12"
    by (simp_all add: newNodeOnDiskFile_def)
  have "yield w' = w'\<lparr>awaits := Suc (awaits w')\<rparr>"
    by (rule yield_lazy) (simp add: sc exampleWorld_def)
  then have "files (yield w') ''/tmp/a-0.png'' = None"
    by (simp add: fs exampleWorld_def)
  then have early: "fst (arrayBuffer ?f w') = Inl (FileReadError ''/tmp/a-0.png'')"
    by (simp add: arrayBuffer_def openPiped_def createReadStream_def f)
  have "files (settle w')
      = (files (performAll (pending exampleWorld) w'))
          (''/tmp/a-0.png'' \<mapsto> [1, 2, 3, 4, 5, 6, 7, 8, 9, 10, 11, 12])"
    by (rule settle_five [OF _ pe]) (simp_all add: fs exampleWorld_def)
  moreover have "pending (settle w') = []"
    by (simp add: settle_def)
  ultimately have "files (yield (settle w')) (filepath ?f)
      = Some [1, 2, 3, 4, 5, 6, 7, 8, 9, 10, 11, 12]"
    by (simp add: yield_quiet f)
  from arrayBuffer_unsliced [OF f(1) this]
  have late: "fst (arrayBuffer ?f (settle w')) = Inr [1, 2, 3, 4, 5, 6, 7, 8, 9, 10, 11, 12]"
    by simp
  from run f(3) early late show ?thesis by blast
qed

text \<open>
  C3. The claim fails on an instance that is itself a slice. \<^verbatim>\<open>slice\<close> builds its window
  from \<^verbatim>\<open>start\<close> and \<^verbatim>\<open>end\<close> as offsets into the backing file and never consults the
  window of the instance it is called on. Of the six bytes \<open>1 \<dots> 6\<close>, \<^verbatim>\<open>slice(2, 5)\<close> holds
  \<open>3, 4, 5\<close> and has size 3; \<^verbatim>\<open>slice()\<close> of that slice reads \<open>1, 2, 3\<close>, not \<open>3, 4, 5\<close>,
  and \<^verbatim>\<open>slice(0, 2)\<close> of it reads \<open>1, 2\<close>, not \<open>3, 4\<close>. (What holds for every instance:
  \<^verbatim>\<open>slice(start, end)\<close> reads the bytes \<open>[start, end)\<close> of the backing file, lemma
  \<open>slice_reads_backing_window\<close>; and \<^verbatim>\<open>slice()\<close> of an instance whose size is the length of
  its backing file reads all of it, lemma \<open>slice_without_arguments\<close>.)
\<close>

theorem slice_of_slice_reads_from_file_start:
  "fst (arrayBuffer (slice sixFile (Some 2) (Some 5) None) sixWorld) = Inr [3, 4, 5]
   \<and> size' (slice sixFile (Some 2) (Some 5) None) = 3
   \<and> fst (arrayBuffer (slice (slice sixFile (Some 2) (Some 5) None) None None None) sixWorld)
       = Inr [1, 2, 3]
   \<and> fst (arrayBuffer (slice (slice sixFile (Some 2) (Some 5) None) (Some 0) (Some 2) None)
         sixWorld) = Inr [1, 2]"
proof (intro conjI)
  have b: "files (yield sixWorld) (filepath (slice this start end' ct)) = Some [1, 2, 3, 4, 5, 6]"
    if "filepath this = filepath sixFile" for this start end' ct
    using that sixFile_backing_now by (simp add: slice_backing)
  show "fst (arrayBuffer (slice sixFile (Some 2) (Some 5) None) sixWorld) = Inr [3, 4, 5]"
    using slice_reads_backing_window [OF sixFile_backing_now, of 2 5 None] by simp
  show "size' (slice sixFile (Some 2) (Some 5) None) = 3"
    by (simp add: slice_def newNodeOnDiskFile_def)
  have sz: "size' (slice sixFile (Some 2) (Some 5) None) = 3"
    by (simp add: slice_def newNodeOnDiskFile_def)
  have "fst (arrayBuffer (slice (slice sixFile (Some 2) (Some 5) None) None None None) sixWorld)
      = Inr (drop (nat 0) (take (nat 3) [1, 2, 3, 4, 5, 6]))"
    by (rule trans [OF arrayBuffer_fresh_slice [OF slice_slicer _ _ b]])
       (simp_all add: slice_backing streamSlice_def sz)
  then show "fst (arrayBuffer (slice (slice sixFile (Some 2) (Some 5) None) None None None)
      sixWorld) = Inr [1, 2, 3]"
    by simp
  have "files (yield sixWorld) (filepath (slice sixFile (Some 2) (Some 5) None))
      = Some [1, 2, 3, 4, 5, 6]"
    using sixFile_backing_now by (simp add: slice_backing)
  from slice_reads_backing_window [OF this, of 0 2 None]
  show "fst (arrayBuffer (slice (slice sixFile (Some 2) (Some 5) None) (Some 0) (Some 2) None)
         sixWorld) = Inr [1, 2]"
    by simp
qed

text \<open>
  C4. The claim fails in its last part. The file of an upload is created by the write
  stream, which the handler does not wait for, and the candidate is named after the
  millisecond. The same upload made twice, into a directory that holds \<^verbatim>\<open>/tmp/a.png\<close>,
  the clock giving the same millisecond to both calls, in a run where the first call's
  stream has not yet created its file when the second call probes: both calls store to
  \<^verbatim>\<open>/tmp/a-0.png\<close>, and once the streams' operations have completed the directory holds
  that one file beside \<^verbatim>\<open>/tmp/a.png\<close>. (What holds for a call made with nothing pending,
  in a world with finitely many files whose clock does not stay bounded, lemma
  \<open>conflict_probed_again\<close>: the handler returns, the path it writes to is not the taken
  candidate but the candidate with \<open>-\<close> and a reading of the clock put before its
  extension, that path did not exist, and every file that existed is left as it was,
  also once the stream's operations have completed. The probe loop returns a path as
  soon as it probes one that does not exist, lemma \<open>uniqueFileLoop_free\<close>.)
\<close>

theorem repeated_upload_reuses_path:
  "\<exists>rs w'. repeatUpload 2 roomyOptions exampleArgs exampleData sameMsWorld = Some (rs, w')
     \<and> storedPaths rs = [''/tmp/a-0.png'', ''/tmp/a-0.png'']
     \<and> files (settle w') ''/tmp/a-0.png'' = Some [1, 2, 3, 4, 5, 6, 7, 8, 9, 10, 11, 12]
     \<and> dom (files (settle w')) = {''/tmp/a.png'', ''/tmp/a-0.png''}"
proof -
  let ?f = "newNodeOnDiskFile ''/tmp/a-0.png'' 12 ''image/png'' None"
  let ?ops = "[StreamOpen ''/tmp/a-0.png'',
          StreamWrite ''/tmp/a-0.png'' [1, 2, 3, 4], StreamWrite ''/tmp/a-0.png'' [5, 6, 7, 8],
          StreamWrite ''/tmp/a-0.png'' [9, 10, 11, 12], StreamClose ''/tmp/a-0.png'']"
  have "\<exists>w'. createFileUploadHandler roomyOptions exampleArgs exampleData sameMsWorld
         = Some (Inr (Some ?f), w')
     \<and> files w' = files sameMsWorld \<and> schedule w' = schedule sameMsWorld
     \<and> uncaught w' = uncaught sameMsWorld
     \<and> clock w' = clock sameMsWorld \<and> clockReads w' = Suc (clockReads sameMsWorld)
     \<and> cwd w' = cwd sameMsWorld \<and> tmpdir w' = tmpdir sameMsWorld
     \<and> pending w' = pending sameMsWorld @ ?ops"
    by (rule lazy_handler_within) (simp_all add: sameMsWorld_def exampleWorld_def)
  then obtain w1 where
    run1: "createFileUploadHandler roomyOptions exampleArgs exampleData sameMsWorld
         = Some (Inr (Some ?f), w1)" and
    fs1: "files w1 = files sameMsWorld" and
    sc1: "schedule w1 = schedule sameMsWorld" and
    cl1: "clock w1 = clock sameMsWorld" and
    cr1: "clockReads w1 = Suc (clockReads sameMsWorld)" and
    cw1: "cwd w1 = cwd sameMsWorld" and
    tm1: "tmpdir w1 = tmpdir sameMsWorld" and
    pe1: "pending w1 = pending sameMsWorld @ ?ops"
    by (elim exE conjE)
  have "\<exists>w'. createFileUploadHandler roomyOptions exampleArgs exampleData w1
         = Some (Inr (Some ?f), w')
     \<and> files w' = files w1 \<and> schedule w' = schedule w1
     \<and> uncaught w' = uncaught w1
     \<and> clock w' = clock w1 \<and> clockReads w' = Suc (clockReads w1)
     \<and> cwd w' = cwd w1 \<and> tmpdir w' = tmpdir w1
     \<and> pending w' = pending w1 @ ?ops"
    by (rule lazy_handler_within)
      (simp_all add: fs1 sc1 cl1 cr1 cw1 tm1 sameMsWorld_def exampleWorld_def)
  then obtain w2 where
    run2: "createFileUploadHandler roomyOptions exampleArgs exampleData w1
         = Some (Inr (Some ?f), w2)" and
    fs2: "files w2 = files w1" and
    pe2: "pending w2 = pending w1 @ ?ops"
    by (elim exE conjE)
  have run: "repeatUpload 2 roomyOptions exampleArgs exampleData sameMsWorld
      = Some ([Inr (Some ?f), Inr (Some ?f)], w2)"
    by (simp add: numeral_2_eq_2 run1 run2)
  have paths: "storedPaths [Inr (Some ?f), Inr (Some ?f)] = [''/tmp/a-0.png'', ''/tmp/a-0.png'']"
    by (simp add: storedPaths_def newNodeOnDiskFile_def)
  have first: "files (performAll ?ops w2)
      = (files sameMsWorld)(''/tmp/a-0.png'' \<mapsto> [1, 2, 3, 4, 5, 6, 7, 8, 9, 10, 11, 12])"
  proof -
    have "perform (StreamOpen ''/tmp/a-0.png'') w2
        = w2\<lparr>files := (files w2)(''/tmp/a-0.png'' \<mapsto> [])\<rparr>"
      by (rule perform_open [OF example_paths(3)])
        (simp add: fs2 fs1 sameMsWorld_def exampleWorld_def)
    then show ?thesis
      by (simp add: perform_write perform_close fs2 fs1)
  qed
  have before: "files (performAll ?ops w2) ''/tmp'' = None"
    unfolding first by (simp add: sameMsWorld_def exampleWorld_def)
  have queue: "pending w2 = ?ops @ ?ops"
    by (simp add: pe2 pe1 sameMsWorld_def exampleWorld_def)
  have "files w2 ''/tmp'' = None"
    by (simp add: fs2 fs1 sameMsWorld_def exampleWorld_def)
  from settle_five [OF this queue before] have all: "files (settle w2)
      = (files sameMsWorld)(''/tmp/a-0.png'' \<mapsto> [1, 2, 3, 4, 5, 6, 7, 8, 9, 10, 11, 12])"
    by (simp only: first fun_upd_upd)
  have content: "files (settle w2) ''/tmp/a-0.png'' = Some [1, 2, 3, 4, 5, 6, 7, 8, 9, 10, 11, 12]"
    by (simp add: all)
  have names: "dom (files (settle w2)) = {''/tmp/a.png'', ''/tmp/a-0.png''}"
    unfolding all by (auto simp: sameMsWorld_def exampleWorld_def)
  from run paths content names show ?thesis by blast
qed

text \<open>
  C5. Where the filter returns false, or the directory resolver or the file resolver
  yields no value, the handler returns \<^verbatim>\<open>undefined\<close> and leaves the world as it was: no
  file is created and no filesystem call is made.
\<close>

theorem skipped_field_touches_nothing:
  assumes "(\<exists>f. filter' opts = Some f \<and> \<not> f args)
         \<or> (\<exists>r. directory opts = Some (PathResolver r) \<and> r args = None)
         \<or> (\<exists>r. file' opts = Some (PathResolver r) \<and> r args = None)"
  shows "createFileUploadHandler opts args data w = Some (Inr None, w)"
proof -
  from assms have "filterRejects opts args \<or> resolveDir opts args w = None
      \<or> resolveFile opts args w = (None, w)"
    by (auto simp: filterRejects_def resolveDir_def resolveFile_def)
  then have "resolveTarget opts args w = (None, w)"
    by (rule resolveTarget_None)
  then show ?thesis
    by (simp add: createFileUploadHandler_def)
qed

theorem skipped_field_touches_nothing_witness:
  "createFileUploadHandler (exampleOptions\<lparr>filter' := Some (\<lambda>a. False)\<rparr>)
       exampleArgs exampleData exampleWorld = Some (Inr None, exampleWorld)
   \<and> createFileUploadHandler (exampleOptions\<lparr>directory := Some (PathResolver (\<lambda>a. None))\<rparr>)
       exampleArgs exampleData exampleWorld = Some (Inr None, exampleWorld)
   \<and> createFileUploadHandler (exampleOptions\<lparr>file' := Some (PathResolver (\<lambda>a. None))\<rparr>)
       exampleArgs exampleData exampleWorld = Some (Inr None, exampleWorld)"
proof (intro conjI)
  show "createFileUploadHandler (exampleOptions\<lparr>filter' := Some (\<lambda>a. False)\<rparr>)
       exampleArgs exampleData exampleWorld = Some (Inr None, exampleWorld)"
    by (rule skipped_field_touches_nothing) simp
  show "createFileUploadHandler (exampleOptions\<lparr>directory := Some (PathResolver (\<lambda>a. None))\<rparr>)
       exampleArgs exampleData exampleWorld = Some (Inr None, exampleWorld)"
    by (rule skipped_field_touches_nothing) simp
  show "createFileUploadHandler (exampleOptions\<lparr>file' := Some (PathResolver (\<lambda>a. None))\<rparr>)
       exampleArgs exampleData exampleWorld = Some (Inr None, exampleWorld)"
    by (rule skipped_field_touches_nothing) simp
qed

text \<open>
  C6. The claim fails on a slice. Every read opens the backing file anew, but pipes it
  into the one slicer stream that \<^verbatim>\<open>slice\<close> created; that stream ends with the first
  read. Of the six bytes \<open>1 \<dots> 6\<close>, the first \<^verbatim>\<open>arrayBuffer()\<close> of \<^verbatim>\<open>slice(2, 5)\<close> gives
  \<open>3, 4, 5\<close>; the second, on the same instance, gives no buffer. (An instance without a
  window can be read again and again: lemma \<open>unsliced_rereadable\<close>.)
\<close>

theorem second_read_of_slice_fails:
  "fst (arrayBuffer (slice sixFile (Some 2) (Some 5) None) sixWorld) = Inr [3, 4, 5]
   \<and> fst (arrayBuffer
        (fst (snd (arrayBuffer (slice sixFile (Some 2) (Some 5) None) sixWorld)))
        (snd (snd (arrayBuffer (slice sixFile (Some 2) (Some 5) None) sixWorld))))
      = Inl StreamEnded
   \<and> readOpens (newEvents sixWorld (snd (snd (arrayBuffer
        (fst (snd (arrayBuffer (slice sixFile (Some 2) (Some 5) None) sixWorld)))
        (snd (snd (arrayBuffer (slice sixFile (Some 2) (Some 5) None) sixWorld)))))))
      = [''/tmp/six.bin'', ''/tmp/six.bin'']"
proof (intro conjI)
  show "fst (arrayBuffer (slice sixFile (Some 2) (Some 5) None) sixWorld) = Inr [3, 4, 5]"
    using slice_reads_backing_window [OF sixFile_backing_now, of 2 5 None] by simp
  have "files sixWorld (filepath (slice sixFile (Some 2) (Some 5) None)) = Some [1, 2, 3, 4, 5, 6]"
    using sixFile_backing by (simp add: slice_backing)
  with slice_slicer sixWorld_quiet show "fst (arrayBuffer
        (fst (snd (arrayBuffer (slice sixFile (Some 2) (Some 5) None) sixWorld)))
        (snd (snd (arrayBuffer (slice sixFile (Some 2) (Some 5) None) sixWorld))))
      = Inl StreamEnded"
    by (rule sliced_second_read_fails)
  have p: "filepath sixFile = ''/tmp/six.bin''"
    by (simp add: sixFile_def newNodeOnDiskFile_def)
  let ?g = "slice sixFile (Some 2) (Some 5) None"
  let ?g1 = "fst (snd (arrayBuffer ?g sixWorld))"
  let ?w1 = "snd (snd (arrayBuffer ?g sixWorld))"
  have "trace (snd (snd (arrayBuffer ?g1 ?w1)))
      = trace sixWorld @ [OpenRead ''/tmp/six.bin'', OpenRead ''/tmp/six.bin'']"
    by (simp add: arrayBuffer_trace arrayBuffer_filepath slice_backing p)
  then have "newEvents sixWorld (snd (snd (arrayBuffer ?g1 ?w1)))
      = [OpenRead ''/tmp/six.bin'', OpenRead ''/tmp/six.bin'']"
    by (rule newEvents_append)
  then show "readOpens (newEvents sixWorld (snd (snd (arrayBuffer
        (fst (snd (arrayBuffer (slice sixFile (Some 2) (Some 5) None) sixWorld)))
        (snd (snd (arrayBuffer (slice sixFile (Some 2) (Some 5) None) sixWorld)))))))
      = [''/tmp/six.bin'', ''/tmp/six.bin'']"
    by (simp add: readOpens_def)
qed

text \<open>
  C7. Whenever the handler gets to write, on the exit through the end of the input and
  on the exit through the size limit alike, it opens one write stream and closes that
  stream exactly once.
\<close>

theorem write_handle_closed_once:
  assumes "\<not> skipped opts args w" and "probeCanEnd opts w"
  shows "\<exists>r w' fp. createFileUploadHandler opts args data w = Some (r, w')
     \<and> writeOpens (newEvents w w') = [fp] \<and> writeCloses (newEvents w w') = [fp]"
proof -
  from not_skipped [OF assms(1)] obtain fp0 w1 where
    "resolveTarget opts args w = (Some fp0, w1)" by blast
  from handler_stores [OF this assms(2), of data] obtain fp w2 ps where
    run: "createFileUploadHandler opts args data w =
           Some (storeUpload fp args (maxFileSizeOf opts) data w2)" and
    tr: "trace w2 = trace w @ map Stat ps"
    by blast
  obtain r w' where st: "storeUpload fp args (maxFileSizeOf opts) data w2 = (r, w')"
    by (cases "storeUpload fp args (maxFileSizeOf opts) data w2")
  from storeUpload_trace [of fp args "maxFileSizeOf opts" data w2] st obtain pre del where
    "trace w' = trace w2 @ [Mkdir (dirname fp), OpenWrite fp] @ map (Write fp) pre
       @ [CloseWrite fp] @ (if del then [Rm fp] else [])"
    by auto
  with tr have "trace w' = trace w @ (map Stat ps @ [Mkdir (dirname fp), OpenWrite fp]
       @ map (Write fp) pre @ [CloseWrite fp] @ (if del then [Rm fp] else []))"
    by simp
  then have ev: "newEvents w w' = map Stat ps @ [Mkdir (dirname fp), OpenWrite fp]
       @ map (Write fp) pre @ [CloseWrite fp] @ (if del then [Rm fp] else [])"
    by (rule newEvents_append)
  have "writeOpens (newEvents w w') = [fp]" "writeCloses (newEvents w w') = [fp]"
    unfolding ev by (simp_all add: observe)
  with run st show ?thesis by simp
qed

theorem write_handle_closed_once_witness:
  "\<not> skipped exampleOptions exampleArgs exampleWorld
   \<and> probeCanEnd exampleOptions exampleWorld
   \<and> (\<exists>r w' fp.
        createFileUploadHandler exampleOptions exampleArgs exampleData exampleWorld = Some (r, w')
        \<and> writeOpens (newEvents exampleWorld w') = [fp]
        \<and> writeCloses (newEvents exampleWorld w') = [fp])"
  using write_handle_closed_once [OF example_not_skipped exampleWorld_probeCanEnd]
    example_not_skipped exampleWorld_probeCanEnd
  by blast

text \<open>
  C8. \<^verbatim>\<open>text()\<close> gives what \<^verbatim>\<open>arrayBuffer()\<close> gives, decoded: the same string on
  success, the same error on failure, and the same instance and world afterwards.
\<close>

theorem text_is_decoded_arrayBuffer:
  "text' decode this w =
     (case arrayBuffer this w of (r, this', w') \<Rightarrow> (map_sum id decode r, this', w'))"
  by (simp add: text'_def arrayBuffer_def readableStreamToString_def
        readableStreamFromStream_def split: prod.splits sum.splits)

text \<open>
  C9. \<^verbatim>\<open>slice\<close> does not look at its third argument: the slice has the type and the
  backing path of the instance it is taken from, whatever content type is passed.
\<close>

theorem slice_ignores_contentType:
  "type' (slice this start end' ct) = type' this
   \<and> filepath (slice this start end' ct) = filepath this
   \<and> slice this start end' ct = slice this start end' None"
  by (simp add: slice_def newNodeOnDiskFile_def Let_def)

text \<open>
  C10. \<^verbatim>\<open>slice\<close> does not clamp: with both offsets given, the size of the slice is
  \<open>end - start\<close>, whatever the offsets and the size of the instance are.
\<close>

theorem slice_size_unclamped:
  "size' (slice this (Some start) (Some end') ct) = end' - start"
  by (simp add: slice_def newNodeOnDiskFile_def)

end
